theory Spec2Isabelle
  imports Main "HOL-Library.AList"
begin

section \<open>Data model (src/src/App.tsx, lines 5-38)\<close>

text \<open>
  The routing core of the component \<open>Network\<close> of \<open>src/src/App.tsx\<close>. JavaScript numbers
  that hold distances and weights are the integers \<open>parseInt\<close> produces, modelled as
  \<open>int\<close>. A routing table (\<open>Record<string, {...}>\<close>) is an association list in
  insertion order: \<open>AList.update\<close> replaces the value of a key in place and appends a
  new key, as a property write on a JavaScript object does. Fields read by the renderer
  only (\<open>x\<close>, \<open>y\<close>, \<open>color\<close>, the \<open>isActive\<close> highlights, \<open>activePaths\<close>) take no part
  in the computation and are left out. The field \<open>id\<close> is \<open>nid\<close> here and \<open>from\<close>,
  \<open>to\<close> are \<open>lfrom\<close>, \<open>lto\<close>, since the source's names are reserved.
\<close>

record entry =
  distance :: int
  nextHop :: string
  isNew :: bool
  isProcessing :: bool
  calculated :: bool

record node =
  nid :: string
  routingTable :: "(string \<times> entry) list"

record link =
  lfrom :: string
  lto :: string
  weight :: int

definition INFINITY :: int where
  "INFINITY = 999999"

text \<open>The status line (\<open>currentNodeStatus\<close>): one constructor per message of the source.\<close>

datatype status =
  NoStatus
  | InitializingDirect
  | SimulationPaused
  | SettingUp string string
  | StartingPass int int
  | Calculating string string
  | SimulationComplete

text \<open>The React state of the component (lines 146-156).\<close>

record session =
  isSetup :: bool
  nodes :: "node list"
  links :: "link list"
  selectedNode :: "string option"
  selectedLink :: "link option"
  editWeight :: "int option"
  isProcessing :: bool
  currentPass :: int
  isPaused :: bool
  currentNodeStatus :: status

definition initialSession :: session where
  "initialSession =
     \<lparr>isSetup = True, nodes = [], links = [], selectedNode = None, selectedLink = None,
      editWeight = None, session.isProcessing = False, currentPass = 1, isPaused = False,
      currentNodeStatus = NoStatus\<rparr>"

text \<open>
  What a run can end in instead of a state: \<open>NeverResumed\<close> is the loop of \<open>delay\<close>
  (lines 163-168) polling a pause flag that is never cleared, \<open>TypeError\<close> is a property
  access on the \<open>undefined\<close> result of \<open>find\<close>, \<open>MalformedMatrix\<close> a read outside the
  distance matrix. \<open>MissingEntry\<close> stands for a relaxation step on a table that has no
  entry for the destination: the source goes on with \<open>undefined\<close> fields there, which
  \<open>entry\<close> cannot hold; no session built by \<open>handleSetupComplete\<close> reaches it
  (\<open>hasEntries_relaxStep\<close> and \<open>setup_hasEntries\<close> below).
\<close>

datatype run_error = NeverResumed | TypeError | MissingEntry | MalformedMatrix

section \<open>Session setup (lines 44-63, 96-131, 170-215)\<close>

text \<open>
  \<open>String.fromCharCode(65 + i)\<close>: the character with code \<open>65 + i\<close>, which a \<open>char\<close>
  holds for \<open>i < 191\<close>, far beyond the 8 nodes of the form.
\<close>

definition nodeId :: "nat \<Rightarrow> string" where
  "nodeId i = [char_of (65 + i)]"

text \<open>
  The two inputs of \<open>NetworkSetup\<close>: \<open>Math.min(8, Math.max(2, parseInt(v)))\<close> on a
  numeric node count (line 101) and \<open>parseInt(v) || INFINITY\<close> on a weight (line 126),
  where \<open>None\<close> is \<open>NaN\<close>.
\<close>

definition clampNodeCount :: "int \<Rightarrow> int" where
  "clampNodeCount v = min 8 (max 2 v)"

definition weightInput :: "int option \<Rightarrow> int" where
  "weightInput v = (case v of None \<Rightarrow> INFINITY | Some k \<Rightarrow> if k = 0 then INFINITY else k)"

definition blankEntry :: entry where
  "blankEntry =
     \<lparr>distance = INFINITY, nextHop = ''-'', isNew = False, entry.isProcessing = False,
      calculated = False\<rparr>"

text \<open>
  \<open>distances[i][j]\<close>. A missing row throws; a missing cell of a row that exists reads as
  \<open>undefined\<close> in the source, which no weight of the model can hold, and is reported the
  same way.
\<close>

definition cell :: "int list list \<Rightarrow> nat \<Rightarrow> nat \<Rightarrow> run_error + int" where
  "cell distances i j =
     (if i < length distances \<and> j < length (distances ! i) then Inr (distances ! i ! j)
      else Inl MalformedMatrix)"

text \<open>The inner loop of lines 186-195: \<open>for (let j = 0; j < i; j++)\<close>, as the list of \<open>j\<close>.\<close>

fun linksOfRow :: "int list list \<Rightarrow> nat \<Rightarrow> nat list \<Rightarrow> run_error + link list" where
  "linksOfRow distances i [] = Inr []"
| "linksOfRow distances i (j # js) =
     (case cell distances i j of
        Inl e \<Rightarrow> Inl e
      | Inr w \<Rightarrow>
          (case linksOfRow distances i js of
             Inl e \<Rightarrow> Inl e
           | Inr ls \<Rightarrow>
               Inr (if w \<noteq> INFINITY then \<lparr>lfrom = nodeId j, lto = nodeId i, weight = w\<rparr> # ls
                    else ls)))"

text \<open>The outer loop of lines 185-196, as the list of \<open>i\<close>.\<close>

fun linksOfRows :: "int list list \<Rightarrow> nat list \<Rightarrow> run_error + link list" where
  "linksOfRows distances [] = Inr []"
| "linksOfRows distances (i # is) =
     (case linksOfRow distances i [0..<i] of
        Inl e \<Rightarrow> Inl e
      | Inr row \<Rightarrow>
          (case linksOfRows distances is of
             Inl e \<Rightarrow> Inl e
           | Inr rest \<Rightarrow> Inr (row @ rest)))"

definition newLinks :: "nat \<Rightarrow> int list list \<Rightarrow> run_error + link list" where
  "newLinks nodeCount distances = linksOfRows distances [0..<nodeCount]"

text \<open>Lines 176-182 and 198-210: the nodes, each with a blank entry for every other node.\<close>

definition blankTable :: "string list \<Rightarrow> string \<Rightarrow> (string \<times> entry) list" where
  "blankTable ids i = map (\<lambda>k. (k, blankEntry)) (filter (\<lambda>k. k \<noteq> i) ids)"

definition newNodesOf :: "nat \<Rightarrow> node list" where
  "newNodesOf nodeCount =
     (let ids = map nodeId [0..<nodeCount]
      in map (\<lambda>i. \<lparr>nid = i, routingTable = blankTable ids i\<rparr>) ids)"

definition handleSetupComplete :: "nat \<Rightarrow> int list list \<Rightarrow> session \<Rightarrow> run_error + session" where
  "handleSetupComplete nodeCount distances s =
     (case newLinks nodeCount distances of
        Inl e \<Rightarrow> Inl e
      | Inr ls \<Rightarrow> Inr (s\<lparr>nodes := newNodesOf nodeCount, links := ls, isSetup := False\<rparr>))"

section \<open>The convergence run (\<open>updateRoutingTables\<close>, lines 265-417)\<close>

text \<open>
  \<open>pauseRef.current\<close> is read at the top of every iteration of the link loop (line 274)
  and of the pair loop (line 335). A run is given the list of what these reads will see,
  in order: the flag is clear, or it is set and cleared later (\<open>delay\<close> returns), or it
  is set and never cleared (\<open>delay\<close> polls for ever). Once the list is used up the flag
  is clear. The \<open>delay\<close> calls inside a unit of work only postpone it.
\<close>

datatype pause = NotPaused | PausedThenResumed | PausedForever

text \<open>
  The variables of one call: the local \<open>newNodes\<close> and \<open>hasChanges\<close>, the reads of the
  pause flag still to come, and the React state as the setters called so far leave it.
  The closure's \<open>nodes\<close> and \<open>links\<close> are parameters: they are the values of the
  render that created the function, whatever the setters have stored since.
\<close>

record run =
  newNodes :: "node list"
  hasChanges :: bool
  pending :: "pause list"
  store :: session

definition observe :: "run \<Rightarrow> pause \<times> run" where
  "observe rs = (case pending rs of [] \<Rightarrow> (NotPaused, rs) | p # ps \<Rightarrow> (p, rs\<lparr>pending := ps\<rparr>))"

definition setStatus :: "status \<Rightarrow> run \<Rightarrow> run" where
  "setStatus m rs = rs\<lparr>store := (store rs)\<lparr>currentNodeStatus := m\<rparr>\<rparr>"

text \<open>\<open>setNodes([...newNodes])\<close>, and with \<open>setLinks([...links])\<close> after it.\<close>

definition publishNodes :: "run \<Rightarrow> run" where
  "publishNodes rs = rs\<lparr>store := (store rs)\<lparr>nodes := newNodes rs\<rparr>\<rparr>"

definition publish :: "link list \<Rightarrow> run \<Rightarrow> run" where
  "publish ls rs = rs\<lparr>store := (store rs)\<lparr>nodes := newNodes rs, links := ls\<rparr>\<rparr>"

text \<open>\<open>newNodes.find(n => n.id === i)\<close>, and a write to the object it returns.\<close>

definition findNode :: "string \<Rightarrow> node list \<Rightarrow> node option" where
  "findNode i ns = find (\<lambda>n. nid n = i) ns"

fun updateNode :: "string \<Rightarrow> (node \<Rightarrow> node) \<Rightarrow> node list \<Rightarrow> node list" where
  "updateNode i f [] = []"
| "updateNode i f (n # ns) = (if nid n = i then f n # ns else n # updateNode i f ns)"

definition setEntry :: "string \<Rightarrow> entry \<Rightarrow> node \<Rightarrow> node" where
  "setEntry d e n = n\<lparr>routingTable := AList.update d e (routingTable n)\<rparr>"

definition directEntry :: "int \<Rightarrow> string \<Rightarrow> entry" where
  "directEntry w hop =
     \<lparr>distance = w, nextHop = hop, isNew = True, entry.isProcessing = False,
      calculated = True\<rparr>"

text \<open>Lines 280-309: the two writes for one link, when both of its ends are found.\<close>

definition initLink :: "link \<Rightarrow> node list \<Rightarrow> node list" where
  "initLink l ns =
     (case (findNode (lfrom l) ns, findNode (lto l) ns) of
        (Some fromNode, Some toNode) \<Rightarrow>
          updateNode (nid toNode) (setEntry (nid fromNode) (directEntry (weight l) (nid fromNode)))
            (updateNode (nid fromNode) (setEntry (nid toNode) (directEntry (weight l) (nid toNode)))
               ns)
      | _ \<Rightarrow> ns)"

text \<open>
  Lines 273-318, \<open>for (const link of links)\<close>. The first argument is the whole array
  (what \<open>setLinks\<close> stores), the second the links still to visit. After a pause the
  \<open>continue\<close> of line 277 goes on with the next link.
\<close>

fun initLoop :: "link list \<Rightarrow> link list \<Rightarrow> run \<Rightarrow> run_error + run" where
  "initLoop cl [] rs = Inr rs"
| "initLoop cl (l # ls) rs =
     (case observe rs of
        (PausedForever, rs1) \<Rightarrow> Inl NeverResumed
      | (PausedThenResumed, rs1) \<Rightarrow> initLoop cl ls (setStatus SimulationPaused rs1)
      | (NotPaused, rs1) \<Rightarrow>
          (if findNode (lfrom l) (newNodes rs1) \<noteq> None \<and> findNode (lto l) (newNodes rs1) \<noteq> None
           then initLoop cl ls
                  (publish cl (setStatus (SettingUp (lfrom l) (lto l))
                     (rs1\<lparr>newNodes := initLink l (newNodes rs1)\<rparr>)))
           else initLoop cl ls rs1))"

text \<open>\<open>neighbor.routingTable[dest.id]?.distance || INFINITY\<close> (line 371).\<close>

definition neighborDistance :: "node \<Rightarrow> string \<Rightarrow> int" where
  "neighborDistance neighbor d =
     (case map_of (routingTable neighbor) d of
        None \<Rightarrow> INFINITY
      | Some e \<Rightarrow> if distance e = 0 then INFINITY else distance e)"

text \<open>
  Lines 357-382, \<open>for (const link of links)\<close> inside one step: the accumulator is
  \<open>(minDistance, nextHop, hasChanges)\<close>.
\<close>

fun scanLinks ::
  "string \<Rightarrow> string \<Rightarrow> node list \<Rightarrow> link list \<Rightarrow> int \<times> string \<times> bool
    \<Rightarrow> run_error + (int \<times> string \<times> bool)" where
  "scanLinks n d ns [] acc = Inr acc"
| "scanLinks n d ns (l # ls) (minDistance, hop, ch) =
     (if lfrom l = n \<or> lto l = n then
        (let neighborId = (if lfrom l = n then lto l else lfrom l) in
         case findNode neighborId ns of
           None \<Rightarrow> Inl TypeError
         | Some neighbor \<Rightarrow>
             (let distanceThroughNeighbor = weight l + neighborDistance neighbor d in
              if distanceThroughNeighbor < minDistance
              then scanLinks n d ns ls (distanceThroughNeighbor, neighborId, True)
              else scanLinks n d ns ls (minDistance, hop, ch)))
      else scanLinks n d ns ls (minDistance, hop, ch))"

text \<open>
  Lines 341-396, one step for \<open>node.id !== dest.id\<close>: the new node list and the new
  value of \<open>hasChanges\<close>.
\<close>

definition relaxStep ::
  "link list \<Rightarrow> string \<Rightarrow> string \<Rightarrow> bool \<Rightarrow> node list \<Rightarrow> run_error + (node list \<times> bool)" where
  "relaxStep ls n d ch ns =
     (case findNode n ns of
        None \<Rightarrow> Inl TypeError
      | Some currentNode \<Rightarrow>
          (case map_of (routingTable currentNode) d of
             None \<Rightarrow> Inl MissingEntry
           | Some e \<Rightarrow>
               (let ns1 = updateNode n (setEntry d (e\<lparr>entry.isProcessing := True\<rparr>)) ns;
                    oldDistance = distance e
                in case scanLinks n d ns1 ls (oldDistance, nextHop e, ch) of
                     Inl err \<Rightarrow> Inl err
                   | Inr (minDistance, hop, ch') \<Rightarrow>
                       Inr (updateNode n
                              (setEntry d
                                 \<lparr>distance = minDistance, nextHop = hop,
                                  isNew = (minDistance \<noteq> oldDistance),
                                  entry.isProcessing = False, calculated = True\<rparr>)
                              ns1,
                            ch'))))"

definition relaxUnit :: "link list \<Rightarrow> string \<Rightarrow> string \<Rightarrow> run \<Rightarrow> run_error + run" where
  "relaxUnit ls n d rs =
     (case relaxStep ls n d (hasChanges rs) (newNodes rs) of
        Inl e \<Rightarrow> Inl e
      | Inr (ns, ch) \<Rightarrow>
          Inr (publish ls (setStatus (Calculating n d) (rs\<lparr>newNodes := ns, hasChanges := ch\<rparr>))))"

text \<open>
  Lines 333-398, \<open>for (const node of nodes) for (const dest of nodes)\<close>, over the pairs
  of ids in that order. The pause flag is read before \<open>node.id !== dest.id\<close> is tested,
  and the \<open>continue\<close> of line 338 goes on with the next pair.
\<close>

fun relaxPairs :: "link list \<Rightarrow> (string \<times> string) list \<Rightarrow> run \<Rightarrow> run_error + run" where
  "relaxPairs ls [] rs = Inr rs"
| "relaxPairs ls ((n, d) # ps) rs =
     (case observe rs of
        (PausedForever, rs1) \<Rightarrow> Inl NeverResumed
      | (PausedThenResumed, rs1) \<Rightarrow> relaxPairs ls ps (setStatus SimulationPaused rs1)
      | (NotPaused, rs1) \<Rightarrow>
          (if n \<noteq> d then
             (case relaxUnit ls n d rs1 of
                Inl e \<Rightarrow> Inl e
              | Inr rs2 \<Rightarrow> relaxPairs ls ps rs2)
           else relaxPairs ls ps rs1))"

definition startPass :: "int \<Rightarrow> int \<Rightarrow> run \<Rightarrow> run" where
  "startPass p maxPasses rs =
     rs\<lparr>hasChanges := False,
        store := (store rs)\<lparr>currentPass := p, currentNodeStatus := StartingPass p maxPasses\<rparr>\<rparr>"

text \<open>
  Lines 327-402, \<open>while (hasChanges && pass <= maxPasses)\<close>; the result carries the
  value of \<open>pass\<close> at the exit.
\<close>

function relaxLoop ::
  "link list \<Rightarrow> string list \<Rightarrow> int \<Rightarrow> int \<Rightarrow> run \<Rightarrow> run_error + (int \<times> run)" where
  "relaxLoop ls ids maxPasses p rs =
     (if hasChanges rs \<and> p \<le> maxPasses then
        (case relaxPairs ls (List.product ids ids) (startPass p maxPasses rs) of
           Inl e \<Rightarrow> Inl e
         | Inr rs' \<Rightarrow> relaxLoop ls ids maxPasses (p + 1) rs')
      else Inr (p, rs))"
  by pat_completeness auto
termination
  by (relation "measure (\<lambda>(ls, ids, maxPasses, p, rs). nat (maxPasses + 1 - p))") auto

declare relaxLoop.simps [simp del]

text \<open>
  The whole function. \<open>c\<close> is the render whose closure is called (it gives
  \<open>isProcessing\<close>, \<open>nodes\<close> and \<open>links\<close>), \<open>st\<close> the React state the setters write to.
  \<open>beginRun\<close> is lines 268-271, \<open>relaxation\<close> lines 320-402 and \<open>finishRun\<close> lines
  404-406.
\<close>

definition beginRun :: "pause list \<Rightarrow> session \<Rightarrow> session \<Rightarrow> run" where
  "beginRun obs c st =
     \<lparr>newNodes = nodes c, hasChanges = True, pending = obs,
      store = st\<lparr>session.isProcessing := True, currentNodeStatus := InitializingDirect\<rparr>\<rparr>"

definition relaxation :: "session \<Rightarrow> run \<Rightarrow> run_error + (int \<times> run)" where
  "relaxation c rs =
     relaxLoop (links c) (map nid (nodes c)) (int (length (nodes c)) - 1) 1
       ((publishNodes rs)\<lparr>hasChanges := True\<rparr>)"

definition finishRun :: "run \<Rightarrow> session" where
  "finishRun rs =
     (store rs)\<lparr>session.isProcessing := False, currentPass := 0,
                currentNodeStatus := SimulationComplete\<rparr>"

definition updateRoutingTables :: "pause list \<Rightarrow> session \<Rightarrow> session \<Rightarrow> run_error + session" where
  "updateRoutingTables obs c st =
     (if session.isProcessing c then Inr st
      else
        (case initLoop (links c) (links c) (beginRun obs c st) of
           Inl e \<Rightarrow> Inl e
         | Inr rs1 \<Rightarrow>
             (case relaxation c rs1 of
                Inl e \<Rightarrow> Inl e
              | Inr (p, rs2) \<Rightarrow> Inr (finishRun rs2))))"

text \<open>The timer of lines 408-416, two seconds after the run.\<close>

definition clearNew :: "session \<Rightarrow> session" where
  "clearNew s =
     s\<lparr>currentNodeStatus := NoStatus,
       nodes := map (\<lambda>n. n\<lparr>routingTable := map (\<lambda>(k, v). (k, v\<lparr>isNew := False\<rparr>)) (routingTable n)\<rparr>)
                  (nodes s)\<rparr>"

text \<open>The effect of lines 419-423, run by the render that follows the setup.\<close>

definition startEffect :: "pause list \<Rightarrow> session \<Rightarrow> run_error + session" where
  "startEffect obs s =
     (if \<not> isSetup s \<and> \<not> session.isProcessing s then updateRoutingTables obs s s else Inr s)"

section \<open>Editing a weight (lines 425-457) and restarting (lines 217-250)\<close>

definition handleLinkClick :: "link \<Rightarrow> session \<Rightarrow> session" where
  "handleLinkClick l s =
     (if \<not> session.isProcessing s then s\<lparr>selectedLink := Some l, editWeight := Some (weight l)\<rparr>
      else s)"

text \<open>The argument of \<open>setLinks\<close> (lines 436-441) and the updater of \<open>setNodes\<close> (443-453).\<close>

definition editedLinks :: "link \<Rightarrow> int \<Rightarrow> link list \<Rightarrow> link list" where
  "editedLinks sel newWeight ls =
     map (\<lambda>l. if (lfrom l = lfrom sel \<and> lto l = lto sel) \<or> (lfrom l = lto sel \<and> lto l = lfrom sel)
              then l\<lparr>weight := newWeight\<rparr> else l) ls"

definition clearFlags :: "node list \<Rightarrow> node list" where
  "clearFlags ns =
     map (\<lambda>n. n\<lparr>routingTable :=
                  map (\<lambda>(k, v). (k, v\<lparr>calculated := False, isNew := False,
                                       entry.isProcessing := False\<rparr>))
                    (routingTable n)\<rparr>) ns"

text \<open>The state the three setters of lines 435-453 leave, before the run is started.\<close>

definition applyEdit :: "link \<Rightarrow> int \<Rightarrow> session \<Rightarrow> session" where
  "applyEdit sel newWeight s =
     s\<lparr>editWeight := Some newWeight, links := editedLinks sel newWeight (links s),
       nodes := clearFlags (nodes s)\<rparr>"

text \<open>
  \<open>handleWeightChange\<close>. The call of line 455 is a call of the closure of the render
  that drew the button: it reads that render's \<open>nodes\<close> and \<open>links\<close>, not what
  \<open>setLinks\<close> and \<open>setNodes\<close> were just given, and its own setters overwrite them.
\<close>

definition handleWeightChange :: "pause list \<Rightarrow> int \<Rightarrow> session \<Rightarrow> run_error + session" where
  "handleWeightChange obs change s =
     (case (selectedLink s, editWeight s) of
        (Some sel, Some w) \<Rightarrow>
          (if \<not> session.isProcessing s
           then updateRoutingTables obs s (applyEdit sel (max 1 (w + change)) s)
           else Inr s)
      | _ \<Rightarrow> Inr s)"

text \<open>The table reset of \<open>restartSimulation\<close> (lines 228-240).\<close>

definition resetTables :: "node list \<Rightarrow> node list" where
  "resetTables ns =
     map (\<lambda>n. n\<lparr>routingTable := map (\<lambda>(k, v). (k, blankEntry)) (routingTable n)\<rparr>) ns"

section \<open>Reading the tables and the scenario of the specification\<close>

text \<open>The distance and next hop of every entry, in table order.\<close>

definition tableOf :: "node list \<Rightarrow> (string \<times> (string \<times> int \<times> string) list) list" where
  "tableOf ns =
     map (\<lambda>n. (nid n, map (\<lambda>(k, e). (k, distance e, nextHop e)) (routingTable n))) ns"

definition finalTables ::
  "run_error + session \<Rightarrow> run_error + (string \<times> (string \<times> int \<times> string) list) list" where
  "finalTables r = (case r of Inl e \<Rightarrow> Inl e | Inr s \<Rightarrow> Inr (tableOf (nodes s)))"

text \<open>
  Three nodes A, B, C with links A-B of weight \<open>w\<close> and B-C of weight 3: the matrix the
  form hands over, and the session \<open>handleSetupComplete\<close> makes of it.
\<close>

definition scenarioMatrix :: "int \<Rightarrow> int list list" where
  "scenarioMatrix w = [[INFINITY, w, INFINITY], [w, INFINITY, 3], [INFINITY, 3, INFINITY]]"

definition scenarioLinks :: "int \<Rightarrow> link list" where
  "scenarioLinks w =
     [\<lparr>lfrom = ''A'', lto = ''B'', weight = w\<rparr>, \<lparr>lfrom = ''B'', lto = ''C'', weight = 3\<rparr>]"

definition scenarioStart :: "int \<Rightarrow> session" where
  "scenarioStart w =
     initialSession\<lparr>nodes := newNodesOf 3, links := scenarioLinks w, isSetup := False\<rparr>"

definition doneEntry :: "int \<Rightarrow> string \<Rightarrow> entry" where
  "doneEntry x h =
     \<lparr>distance = x, nextHop = h, isNew = False, entry.isProcessing = False,
      calculated = True\<rparr>"

definition scenarioNodes :: "node list" where
  "scenarioNodes =
     [\<lparr>nid = ''A'', routingTable = [(''B'', doneEntry 2 ''B''), (''C'', doneEntry 5 ''B'')]\<rparr>,
      \<lparr>nid = ''B'', routingTable = [(''A'', doneEntry 2 ''A''), (''C'', doneEntry 3 ''C'')]\<rparr>,
      \<lparr>nid = ''C'', routingTable = [(''A'', doneEntry 5 ''B''), (''B'', doneEntry 3 ''B'')]\<rparr>]"

text \<open>
  The scenario with weight 2 after its first run and the timer, then with the link A-B
  clicked, and that state as it is while a later run is under way and paused.
\<close>

definition scenarioConverged :: session where
  "scenarioConverged = (scenarioStart 2)\<lparr>nodes := scenarioNodes, currentPass := 0\<rparr>"

definition linkAB :: link where
  "linkAB = \<lparr>lfrom = ''A'', lto = ''B'', weight = 2\<rparr>"

definition scenarioSelected :: session where
  "scenarioSelected = scenarioConverged\<lparr>selectedLink := Some linkAB, editWeight := Some 2\<rparr>"

definition scenarioPaused :: session where
  "scenarioPaused = scenarioSelected\<lparr>session.isProcessing := True, isPaused := True\<rparr>"

section \<open>Further sessions used as examples\<close>

text \<open>
  The same three nodes with both links at 600000: A reaches C over a path of weight
  1200000, above \<open>INFINITY\<close>.
\<close>

definition longLinks :: "link list" where
  "longLinks =
     [\<lparr>lfrom = ''A'', lto = ''B'', weight = 600000\<rparr>,
      \<lparr>lfrom = ''B'', lto = ''C'', weight = 600000\<rparr>]"

definition longMatrix :: "int list list" where
  "longMatrix =
     [[INFINITY, 600000, INFINITY], [600000, INFINITY, 600000], [INFINITY, 600000, INFINITY]]"

definition longStart :: session where
  "longStart = initialSession\<lparr>nodes := newNodesOf 3, links := longLinks, isSetup := False\<rparr>"

text \<open>A single link A-B of weight 2: C is joined to nothing.\<close>

definition pairMatrix :: "int list list" where
  "pairMatrix = [[INFINITY, 2, INFINITY], [2, INFINITY, INFINITY], [INFINITY, INFINITY, INFINITY]]"

definition pairLinks :: "link list" where
  "pairLinks = [\<lparr>lfrom = ''A'', lto = ''B'', weight = 2\<rparr>]"

definition pairStart :: session where
  "pairStart = initialSession\<lparr>nodes := newNodesOf 3, links := pairLinks, isSetup := False\<rparr>"

text \<open>Links A-B of weight 2000000 and A-C of weight 1, and no link B-C.\<close>

definition bigMatrix :: "int list list" where
  "bigMatrix =
     [[INFINITY, 2000000, 1], [2000000, INFINITY, INFINITY], [1, INFINITY, INFINITY]]"

definition bigLinks :: "link list" where
  "bigLinks =
     [\<lparr>lfrom = ''A'', lto = ''B'', weight = 2000000\<rparr>,
      \<lparr>lfrom = ''A'', lto = ''C'', weight = 1\<rparr>]"

definition bigStart :: session where
  "bigStart = initialSession\<lparr>nodes := newNodesOf 3, links := bigLinks, isSetup := False\<rparr>"

text \<open>
  A triangle with a detour: A-B of weight 10, A-C and B-C of weight 1, and the session
  after its first run and the timer.
\<close>

definition triMatrix :: "int list list" where
  "triMatrix = [[INFINITY, 10, 1], [10, INFINITY, 1], [1, 1, INFINITY]]"

definition triLinks :: "link list" where
  "triLinks =
     [\<lparr>lfrom = ''A'', lto = ''B'', weight = 10\<rparr>, \<lparr>lfrom = ''A'', lto = ''C'', weight = 1\<rparr>,
      \<lparr>lfrom = ''B'', lto = ''C'', weight = 1\<rparr>]"

definition triStart :: session where
  "triStart = initialSession\<lparr>nodes := newNodesOf 3, links := triLinks, isSetup := False\<rparr>"

definition triNodes :: "node list" where
  "triNodes =
     [\<lparr>nid = ''A'', routingTable = [(''B'', doneEntry 2 ''C''), (''C'', doneEntry 1 ''C'')]\<rparr>,
      \<lparr>nid = ''B'', routingTable = [(''A'', doneEntry 2 ''C''), (''C'', doneEntry 1 ''C'')]\<rparr>,
      \<lparr>nid = ''C'', routingTable = [(''A'', doneEntry 1 ''A''), (''B'', doneEntry 1 ''B'')]\<rparr>]"

definition triConverged :: session where
  "triConverged = triStart\<lparr>nodes := triNodes, currentPass := 0\<rparr>"

text \<open>
  A square A-B, A-C, B-D, C-D with all weights 1, and its tables after the link loop:
  from A, the neighbours B and C offer the same distance to D.
\<close>

definition tieLinks :: "link list" where
  "tieLinks =
     [\<lparr>lfrom = ''A'', lto = ''B'', weight = 1\<rparr>, \<lparr>lfrom = ''A'', lto = ''C'', weight = 1\<rparr>,
      \<lparr>lfrom = ''B'', lto = ''D'', weight = 1\<rparr>, \<lparr>lfrom = ''C'', lto = ''D'', weight = 1\<rparr>]"

definition tieNodes :: "node list" where
  "tieNodes = foldl (\<lambda>ns l. initLink l ns) (newNodesOf 4) tieLinks"

text \<open>The tables a run started on \<open>s\<close> holds when its link loop is over.\<close>

definition afterInit :: "session \<Rightarrow> run_error + (string \<times> (string \<times> int \<times> string) list) list" where
  "afterInit s =
     (case initLoop (links s) (links s) (beginRun [] s s) of
        Inl e \<Rightarrow> Inl e
      | Inr rs \<Rightarrow> Inr (tableOf (newNodes rs)))"

section \<open>Vocabulary of the properties\<close>

text \<open>
  The entry of node \<open>n\<close> for destination \<open>d\<close>, as
  \<open>newNodes.find(x => x.id === n)?.routingTable[d]\<close> reads it.
\<close>

definition entryAt :: "node list \<Rightarrow> string \<Rightarrow> string \<Rightarrow> entry option" where
  "entryAt ns n d = (case findNode n ns of None \<Rightarrow> None | Some x \<Rightarrow> map_of (routingTable x) d)"

text \<open>
  What line 371 reads for neighbour \<open>h\<close>, and the link tests of lines 358-359: the
  link touches \<open>n\<close>, its other end, and the candidate distance through it.
\<close>

definition nd :: "node list \<Rightarrow> string \<Rightarrow> string \<Rightarrow> int" where
  "nd ns h d =
     (case entryAt ns h d of
        None \<Rightarrow> INFINITY
      | Some e \<Rightarrow> if distance e = 0 then INFINITY else distance e)"

definition incident :: "link \<Rightarrow> string \<Rightarrow> bool" where
  "incident l n = (lfrom l = n \<or> lto l = n)"

definition other :: "link \<Rightarrow> string \<Rightarrow> string" where
  "other l n = (if lfrom l = n then lto l else lfrom l)"

definition cand :: "node list \<Rightarrow> link \<Rightarrow> string \<Rightarrow> string \<Rightarrow> int" where
  "cand ns l n d = weight l + nd ns (other l n) d"

definition joins :: "link \<Rightarrow> string \<Rightarrow> string \<Rightarrow> bool" where
  "joins l a b = ((lfrom l = a \<and> lto l = b) \<or> (lfrom l = b \<and> lto l = a))"

text \<open>
  The weighted graph of a link list: a walk from \<open>a\<close> to \<open>b\<close> is a list of links, each
  leaving the node the one before it reached; its weight is the sum of the weights.
\<close>

fun walk :: "link list \<Rightarrow> string \<Rightarrow> link list \<Rightarrow> string \<Rightarrow> bool" where
  "walk ls a [] b = (a = b)"
| "walk ls a (l # p) b = (l \<in> set ls \<and> incident l a \<and> walk ls (other l a) p b)"

definition walkWeight :: "link list \<Rightarrow> int" where
  "walkWeight p = sum_list (map weight p)"

fun endOf :: "string \<Rightarrow> link list \<Rightarrow> string" where
  "endOf a [] = a"
| "endOf a (l # p) = endOf (other l a) p"

text \<open>
  The inputs: a matrix of \<open>n\<close> rows of \<open>n\<close> cells, with positive cells below the
  diagonal (a cell equal to \<open>INFINITY\<close> is no link), or positive ones up to \<open>INFINITY\<close>.
\<close>

definition squareMatrix :: "nat \<Rightarrow> int list list \<Rightarrow> bool" where
  "squareMatrix n m = (length m = n \<and> (\<forall>row \<in> set m. length row = n))"

definition positiveWeights :: "nat \<Rightarrow> int list list \<Rightarrow> bool" where
  "positiveWeights N m = (\<forall>i < N. \<forall>j < i. 0 < m ! i ! j)"

definition sentinelWeights :: "nat \<Rightarrow> int list list \<Rightarrow> bool" where
  "sentinelWeights N m = (\<forall>i < N. \<forall>j < i. 0 < m ! i ! j \<and> m ! i ! j \<le> INFINITY)"

definition nodeIds :: "nat \<Rightarrow> string list" where
  "nodeIds N = map nodeId [0..<N]"

definition mkLink :: "int list list \<Rightarrow> nat \<Rightarrow> nat \<Rightarrow> link" where
  "mkLink m i j = \<lparr>lfrom = nodeId j, lto = nodeId i, weight = m ! i ! j\<rparr>"

text \<open>
  Link lists: the ends are nodes; no link is a loop and every weight is positive; no two
  links join the same pair of nodes.
\<close>

definition linksIn :: "string list \<Rightarrow> link list \<Rightarrow> bool" where
  "linksIn ids ls = (\<forall>l \<in> set ls. lfrom l \<in> set ids \<and> lto l \<in> set ids)"

definition goodLinks :: "string list \<Rightarrow> link list \<Rightarrow> bool" where
  "goodLinks ids ls =
     (\<forall>l \<in> set ls. lfrom l \<in> set ids \<and> lto l \<in> set ids \<and> lfrom l \<noteq> lto l \<and> 0 < weight l)"

definition uniquePairs :: "link list \<Rightarrow> bool" where
  "uniquePairs ls = (\<forall>l \<in> set ls. \<forall>l' \<in> set ls. joins l (lfrom l') (lto l') \<longrightarrow> l = l')"

text \<open>
  Tables: every node has an entry for every other node (and, for \<open>complete\<close>, none for
  itself); every entry is blank; no distance is above \<open>INFINITY\<close>.
\<close>

definition hasEntries :: "string list \<Rightarrow> node list \<Rightarrow> bool" where
  "hasEntries ids ns =
     (map nid ns = ids \<and> (\<forall>a \<in> set ids. \<forall>b \<in> set ids. a \<noteq> b \<longrightarrow> entryAt ns a b \<noteq> None))"

definition complete :: "string list \<Rightarrow> node list \<Rightarrow> bool" where
  "complete ids ns =
     (map nid ns = ids \<and> (\<forall>a \<in> set ids. \<forall>b \<in> set ids. (entryAt ns a b \<noteq> None) = (a \<noteq> b)))"

definition fresh :: "node list \<Rightarrow> bool" where
  "fresh ns = (\<forall>a b e. entryAt ns a b = Some e \<longrightarrow> e = blankEntry)"

definition bounded :: "node list \<Rightarrow> bool" where
  "bounded ns = (\<forall>n d e. entryAt ns n d = Some e \<longrightarrow> distance e \<le> INFINITY)"

text \<open>
  \<open>sound\<close>: an entry that is not blank belongs to a pair joined by a walk, and a distance
  below \<open>INFINITY\<close> is the weight of a walk. \<open>hopOk\<close>: the next hop of such an entry is
  the other end of a link at the node, and the link's weight plus the next hop's own
  distance (\<open>leg\<close>, 0 at the destination itself) is at most the entry's distance.
\<close>

definition sound :: "link list \<Rightarrow> node list \<Rightarrow> bool" where
  "sound ls ns =
     (\<forall>n d e. entryAt ns n d = Some e \<longrightarrow>
        ((distance e = INFINITY \<and> nextHop e = ''-'') \<or> (\<exists>p. p \<noteq> [] \<and> walk ls n p d)) \<and>
        (distance e < INFINITY \<longrightarrow> (\<exists>p. p \<noteq> [] \<and> walk ls n p d \<and> walkWeight p = distance e)))"

definition leg :: "node list \<Rightarrow> string \<Rightarrow> string \<Rightarrow> int option" where
  "leg ns h d = (if h = d then Some 0 else map_option distance (entryAt ns h d))"

definition hopOk :: "link list \<Rightarrow> node list \<Rightarrow> bool" where
  "hopOk ls ns =
     (\<forall>n d e. entryAt ns n d = Some e \<and> distance e < INFINITY \<longrightarrow>
        (\<exists>l \<in> set ls. \<exists>x. incident l n \<and> other l n = nextHop e \<and>
           leg ns (nextHop e) d = Some x \<and> weight l + x \<le> distance e))"

definition tablesOk :: "string list \<Rightarrow> link list \<Rightarrow> node list \<Rightarrow> bool" where
  "tablesOk ids ls ns = (complete ids ns \<and> sound ls ns \<and> hopOk ls ns)"

text \<open>
  Between two tables: no distance has risen; all distances are the same.
\<close>

definition lowers :: "node list \<Rightarrow> node list \<Rightarrow> bool" where
  "lowers ns ns' =
     (\<forall>n d e. entryAt ns n d = Some e \<longrightarrow>
        (\<exists>e'. entryAt ns' n d = Some e' \<and> distance e' \<le> distance e))"

definition sameDist :: "node list \<Rightarrow> node list \<Rightarrow> bool" where
  "sameDist ns ns' =
     (\<forall>n d. map_option distance (entryAt ns' n d) = map_option distance (entryAt ns n d))"

text \<open>
  \<open>within\<close>: the entry is at most the weight of every walk of at most \<open>k\<close> links whose
  weight is below \<open>INFINITY\<close>; \<open>optimal\<close>: the same for walks of any length. \<open>settled\<close>:
  no link at the node offers a candidate below the entry.
\<close>

definition within :: "link list \<Rightarrow> node list \<Rightarrow> nat \<Rightarrow> string \<Rightarrow> string \<Rightarrow> bool" where
  "within ls ns k n d =
     (\<forall>p. walk ls n p d \<and> length p \<le> k \<and> walkWeight p < INFINITY \<longrightarrow>
        (\<exists>e. entryAt ns n d = Some e \<and> distance e \<le> walkWeight p))"

definition allWithin :: "link list \<Rightarrow> node list \<Rightarrow> nat \<Rightarrow> bool" where
  "allWithin ls ns k = (\<forall>n d. n \<noteq> d \<longrightarrow> within ls ns k n d)"

definition optimal :: "link list \<Rightarrow> node list \<Rightarrow> bool" where
  "optimal ls ns =
     (\<forall>n d p. n \<noteq> d \<and> walk ls n p d \<and> walkWeight p < INFINITY \<longrightarrow>
        (\<exists>e. entryAt ns n d = Some e \<and> distance e \<le> walkWeight p))"

definition settled :: "link list \<Rightarrow> node list \<Rightarrow> string \<Rightarrow> string \<Rightarrow> bool" where
  "settled ls ns n d =
     (\<exists>e. entryAt ns n d = Some e \<and> (\<forall>l \<in> set ls. incident l n \<longrightarrow> distance e \<le> cand ns l n d))"

text \<open>
  The invariant of one pass that started from \<open>ns0\<close> with bounds for \<open>k\<close> links: the
  pairs visited so far (\<open>S\<close>) have bounds for \<open>k + 1\<close> links and, while \<open>hasChanges\<close> is
  still false, are settled.
\<close>

definition passInv ::
  "string list \<Rightarrow> link list \<Rightarrow> node list \<Rightarrow> nat \<Rightarrow> (string \<times> string) set \<Rightarrow> node list \<Rightarrow> bool
    \<Rightarrow> bool" where
  "passInv ids ls ns0 k S ns c =
     (tablesOk ids ls ns \<and> lowers ns0 ns \<and>
      (\<forall>(n, d) \<in> S. n \<noteq> d \<longrightarrow> within ls ns (Suc k) n d) \<and>
      (\<not> c \<longrightarrow> (\<forall>(n, d) \<in> S. n \<noteq> d \<longrightarrow> settled ls ns n d)))"

text \<open>The React state holds what the run has computed, and the closure's links.\<close>

definition synced :: "link list \<Rightarrow> run \<Rightarrow> bool" where
  "synced ls rs = (nodes (store rs) = newNodes rs \<and> links (store rs) = ls)"

text \<open>
  Between two tables: every entry has the same distance and next hop; some entry has a
  lower distance.
\<close>

definition sameRoutes :: "node list \<Rightarrow> node list \<Rightarrow> bool" where
  "sameRoutes ns ns' =
     (\<forall>n d. map_option (\<lambda>e. (distance e, nextHop e)) (entryAt ns' n d) =
            map_option (\<lambda>e. (distance e, nextHop e)) (entryAt ns n d))"

definition lowered :: "node list \<Rightarrow> node list \<Rightarrow> bool" where
  "lowered ns ns' =
     (\<exists>n d e e'. entryAt ns n d = Some e \<and> entryAt ns' n d = Some e' \<and> distance e' < distance e)"

text \<open>
  What \<open>hasChanges\<close> says in the course of a pass that started from the tables \<open>ns0\<close>.
\<close>

definition passFlag :: "node list \<Rightarrow> run \<Rightarrow> bool" where
  "passFlag ns0 rs =
     (lowers ns0 (newNodes rs) \<and>
      (if hasChanges rs then lowered ns0 (newNodes rs) else sameRoutes ns0 (newNodes rs)))"

text \<open>
  The variables after \<open>k\<close> passes numbered \<open>p\<close>, \<open>p + 1\<close>, ... from \<open>rs\<close>, each one the
  body of the \<open>while\<close> loop (lines 328-398); and after the first \<open>k\<close> passes of the run
  of render \<open>c\<close>, from what the link loop left in \<open>rs\<close> (lines 320-325).
\<close>

fun passesFrom ::
  "link list \<Rightarrow> string list \<Rightarrow> int \<Rightarrow> int \<Rightarrow> nat \<Rightarrow> run \<Rightarrow> run_error + run" where
  "passesFrom ls ids maxPasses p 0 rs = Inr rs"
| "passesFrom ls ids maxPasses p (Suc k) rs =
     (case relaxPairs ls (List.product ids ids) (startPass p maxPasses rs) of
        Inl e \<Rightarrow> Inl e
      | Inr rs' \<Rightarrow> passesFrom ls ids maxPasses (p + 1) k rs')"

definition passesOf :: "session \<Rightarrow> run \<Rightarrow> nat \<Rightarrow> run_error + run" where
  "passesOf c rs k =
     passesFrom (links c) (map nid (nodes c)) (int (length (nodes c)) - 1) 1 k
       ((publishNodes rs)\<lparr>hasChanges := True\<rparr>)"

text \<open>The React state holds the edit weight and the selected link of \<open>st\<close>.\<close>

definition sameEdit :: "session \<Rightarrow> run \<Rightarrow> bool" where
  "sameEdit st rs =
     (editWeight (store rs) = editWeight st \<and> selectedLink (store rs) = selectedLink st)"

section \<open>The links and nodes of a new session\<close>

lemma nodeId_inj: "i < 191 \<Longrightarrow> j < 191 \<Longrightarrow> nodeId i = nodeId j \<Longrightarrow> i = j"
proof -
  assume a: "i < 191" "j < 191" "nodeId i = nodeId j"
  then have "of_char (char_of (65 + i) :: char) = (of_char (char_of (65 + j) :: char) :: nat)"
    by (simp add: nodeId_def)
  then have "(65 + i) mod 256 = (65 + j) mod 256" by simp
  with a show ?thesis by simp
qed

lemma linksOfRow_eq:
  "i < length m \<Longrightarrow> \<forall>j \<in> set js. j < length (m ! i) \<Longrightarrow>
   linksOfRow m i js = Inr (map (mkLink m i) (filter (\<lambda>j. m ! i ! j \<noteq> INFINITY) js))"
  by (induction js) (auto simp: cell_def mkLink_def)

lemma linksOfRows_eq:
  "\<forall>i \<in> set is. i < length m \<and> i \<le> length (m ! i) \<Longrightarrow>
   linksOfRows m is =
     Inr (concat (map (\<lambda>i. map (mkLink m i) (filter (\<lambda>j. m ! i ! j \<noteq> INFINITY) [0..<i])) is))"
  by (induction "is") (auto simp: linksOfRow_eq)

lemma newLinks_eq:
  assumes "squareMatrix N m"
  shows "newLinks N m =
     Inr (concat (map (\<lambda>i. map (mkLink m i) (filter (\<lambda>j. m ! i ! j \<noteq> INFINITY) [0..<i])) [0..<N]))"
  unfolding newLinks_def using assms
  by (intro linksOfRows_eq) (auto simp: squareMatrix_def)

lemma nodeId_eq_iff: "i < 191 \<Longrightarrow> j < 191 \<Longrightarrow> (nodeId i = nodeId j) = (i = j)"
  using nodeId_inj by blast

lemma newLinks_mem:
  assumes "newLinks N m = Inr ls" "squareMatrix N m"
  shows "l \<in> set ls \<longleftrightarrow> (\<exists>i j. j < i \<and> i < N \<and> m ! i ! j \<noteq> INFINITY \<and> l = mkLink m i j)"
proof -
  have ls: "ls = concat (map (\<lambda>i. map (mkLink m i) (filter (\<lambda>j. m ! i ! j \<noteq> INFINITY) [0..<i])) [0..<N])"
    using assms by (simp add: newLinks_eq)
  show ?thesis unfolding ls by (auto simp: image_iff) blast
qed

lemma newLinks_distinct:
  assumes "N \<le> 191"
  shows "distinct (concat (map (\<lambda>i. map (mkLink m i) (filter (\<lambda>j. m ! i ! j \<noteq> INFINITY) [0..<i])) [0..<N]))"
  using assms
proof (induction N)
  case 0 then show ?case by simp
next
  case (Suc N)
  have inj: "inj_on (mkLink m N) {j. j < N}"
    using Suc.prems by (auto simp: inj_on_def mkLink_def nodeId_eq_iff)
  have d: "distinct (map (mkLink m N) (filter (\<lambda>j. m ! N ! j \<noteq> INFINITY) [0..<N]))"
    by (rule iffD2[OF distinct_map]) (auto intro: inj_on_subset[OF inj])
  have disj: "\<And>i j j'. i < N \<Longrightarrow> j < i \<Longrightarrow> j' < N \<Longrightarrow> mkLink m i j \<noteq> mkLink m N j'"
    using Suc.prems by (auto simp: mkLink_def nodeId_eq_iff)
  from Suc d disj show ?case by (auto simp: ) metis
qed

lemma newLinks_uniquePairs:
  assumes "newLinks N m = Inr ls" "squareMatrix N m" "N \<le> 191"
  shows "uniquePairs ls"
  unfolding uniquePairs_def
proof (intro ballI impI)
  fix l l' assume l: "l \<in> set ls" and l': "l' \<in> set ls" and j: "joins l (lfrom l') (lto l')"
  from l obtain i j where 1: "j < i" "i < N" "l = mkLink m i j" using newLinks_mem[OF assms(1,2)] by blast
  from l' obtain i' j' where 2: "j' < i'" "i' < N" "l' = mkLink m i' j'" using newLinks_mem[OF assms(1,2)] by blast
  from j 1 2 assms(3) have "(i = i' \<and> j = j') \<or> (j = i' \<and> i = j')"
    by (auto simp: joins_def mkLink_def nodeId_eq_iff)
  with 1 2 show "l = l'" by auto
qed

lemma map_of_blankTable:
  "map_of (blankTable ids a) b = (if b \<in> set ids \<and> b \<noteq> a then Some blankEntry else None)"
  by (induction ids) (auto simp: blankTable_def)

lemma nid_newNodesOf: "map nid (newNodesOf N) = map nodeId [0..<N]"
  by (simp add: newNodesOf_def o_def)

lemma findNode_map:
  "findNode a (map (\<lambda>i. \<lparr>nid = i, routingTable = f i\<rparr>) ids) = (if a \<in> set ids then Some \<lparr>nid = a, routingTable = f a\<rparr> else None)"
  by (induction ids) (auto simp: findNode_def)

lemma entryAt_newNodesOf:
  "entryAt (newNodesOf N) a b =
     (if a \<in> nodeId ` {0..<N} \<and> b \<in> nodeId ` {0..<N} \<and> a \<noteq> b then Some blankEntry else None)"
  unfolding entryAt_def newNodesOf_def Let_def findNode_map
  by (auto simp: map_of_blankTable)

section \<open>Reading and writing entries\<close>

lemma findNode_Some: "findNode i ns = Some x \<Longrightarrow> nid x = i \<and> x \<in> set ns"
  by (auto simp: findNode_def find_Some_iff)

lemma findNode_None: "(findNode i ns = None) = (i \<notin> nid ` set ns)"
  by (auto simp: findNode_def find_None_iff)

lemma nid_setEntry [simp]: "nid (setEntry d e n) = nid n"
  by (simp add: setEntry_def)

lemma map_nid_updateNode [simp]: "map nid (updateNode i (setEntry d e) ns) = map nid ns"
  by (induction ns) auto

lemma set_nid_updateNode [simp]: "nid ` set (updateNode i (setEntry d e) ns) = nid ` set ns"
  using map_nid_updateNode[of i d e ns] by (metis set_map)

lemma findNode_updateNode:
  "findNode a (updateNode i (setEntry d e) ns) =
     (case findNode a ns of None \<Rightarrow> None | Some x \<Rightarrow> Some (if a = i then setEntry d e x else x))"
  by (induction ns) (auto simp: findNode_def split: option.splits)

lemma entryAt_updateNode:
  "entryAt (updateNode i (setEntry d e) ns) a b =
     (if a = i \<and> b = d \<and> i \<in> nid ` set ns then Some e else entryAt ns a b)"
proof (cases "findNode a ns")
  case None
  then have "a \<notin> nid ` set ns" by (simp add: findNode_None)
  with None show ?thesis by (auto simp: entryAt_def findNode_updateNode)
next
  case (Some x)
  then have "a \<in> nid ` set ns" using findNode_None[of a ns] by auto
  with Some show ?thesis
    by (auto simp: entryAt_def findNode_updateNode setEntry_def update_conv')
qed

lemma map_nid_initLink [simp]: "map nid (initLink l ns) = map nid ns"
  by (auto simp: initLink_def split: option.splits)

lemma entryAt_initLink:
  assumes "lfrom l \<in> nid ` set ns" "lto l \<in> nid ` set ns"
  shows "entryAt (initLink l ns) a b =
     (if a = lto l \<and> b = lfrom l then Some (directEntry (weight l) (lfrom l))
      else if a = lfrom l \<and> b = lto l then Some (directEntry (weight l) (lto l))
      else entryAt ns a b)"
proof -
  from assms have "findNode (lfrom l) ns \<noteq> None" "findNode (lto l) ns \<noteq> None"
    by (simp_all add: findNode_None)
  then obtain f t where ft: "findNode (lfrom l) ns = Some f" "findNode (lto l) ns = Some t"
    by auto
  then have "nid f = lfrom l" "nid t = lto l" by (auto dest: findNode_Some)
  with ft assms show ?thesis
    by (simp add: initLink_def entryAt_updateNode)
qed

section \<open>The scan of the links and one relaxation step\<close>

lemma neighborDistance_nd: "findNode h ns = Some x \<Longrightarrow> neighborDistance x d = nd ns h d"
  by (simp add: neighborDistance_def nd_def entryAt_def)

lemma scanLinks_cong:
  assumes "\<And>h. (findNode h ns = None) = (findNode h ns' = None)" "\<And>h. nd ns h d = nd ns' h d"
  shows "scanLinks n d ns ls acc = scanLinks n d ns' ls acc"
proof (induction ls arbitrary: acc)
  case Nil then show ?case by simp
next
  case (Cons l ls)
  obtain m h c where acc: "acc = (m, h, c)" by (cases acc)
  show ?case
  proof (cases "findNode (other l n) ns")
    case None
    with assms(1)[of "other l n"] have "findNode (other l n) ns' = None" by simp
    with None Cons show ?thesis by (simp add: acc other_def)
  next
    case (Some x)
    with assms(1)[of "other l n"] obtain x' where x': "findNode (other l n) ns' = Some x'" by auto
    have "neighborDistance x d = neighborDistance x' d"
      using neighborDistance_nd[OF Some] neighborDistance_nd[OF x'] assms(2) by simp
    with Some x' Cons show ?thesis by (simp add: acc other_def Let_def)
  qed
qed

lemma scanLinks_step:
  "scanLinks n d ns (l # ls) (m, h, c) =
     (if incident l n then
        (if findNode (other l n) ns = None then Inl TypeError
         else if cand ns l n d < m then scanLinks n d ns ls (cand ns l n d, other l n, True)
         else scanLinks n d ns ls (m, h, c))
      else scanLinks n d ns ls (m, h, c))"
  by (auto simp: incident_def other_def cand_def Let_def neighborDistance_nd split: option.splits)

declare scanLinks.simps(2) [simp del]

lemma scanLinks_total:
  assumes "\<forall>l \<in> set ls. incident l n \<longrightarrow> other l n \<in> nid ` set ns"
  shows "\<exists>r. scanLinks n d ns ls (m, h, c) = Inr r"
  using assms
proof (induction ls arbitrary: m h c)
  case Nil then show ?case by simp
next
  case (Cons l ls)
  then have "\<And>m h c. \<exists>r. scanLinks n d ns ls (m, h, c) = Inr r" by simp
  with Cons.prems show ?case by (simp add: scanLinks_step findNode_None)
qed

lemma scanLinks_bounds:
  assumes "scanLinks n d ns ls (m, h, c) = Inr (m', h', c')"
  shows "m' \<le> m \<and> (\<forall>l \<in> set ls. incident l n \<longrightarrow> m' \<le> cand ns l n d) \<and> (c \<longrightarrow> c')"
  using assms
proof (induction ls arbitrary: m h c)
  case Nil then show ?case by simp
next
  case (Cons l ls)
  show ?case
  proof (cases "incident l n \<and> cand ns l n d < m")
    case True
    with Cons.prems have "scanLinks n d ns ls (cand ns l n d, other l n, True) = Inr (m', h', c')"
      by (simp add: scanLinks_step split: if_splits)
    from Cons.IH[OF this] True show ?thesis by auto
  next
    case False
    with Cons.prems have "scanLinks n d ns ls (m, h, c) = Inr (m', h', c')"
      by (auto simp: scanLinks_step split: if_splits)
    from Cons.IH[OF this] False show ?thesis by auto
  qed
qed

lemma scanLinks_origin:
  assumes "scanLinks n d ns ls (m, h, c) = Inr (m', h', c')"
  shows "(m' = m \<and> h' = h \<and> c' = c) \<or>
         (m' < m \<and> c' \<and> (\<exists>l \<in> set ls. incident l n \<and> m' = cand ns l n d \<and> h' = other l n))"
  using assms
proof (induction ls arbitrary: m h c)
  case Nil then show ?case by simp
next
  case (Cons l ls)
  show ?case
  proof (cases "incident l n \<and> cand ns l n d < m")
    case True
    with Cons.prems have "scanLinks n d ns ls (cand ns l n d, other l n, True) = Inr (m', h', c')"
      by (simp add: scanLinks_step split: if_splits)
    from Cons.IH[OF this] True show ?thesis by auto
  next
    case False
    with Cons.prems have "scanLinks n d ns ls (m, h, c) = Inr (m', h', c')"
      by (auto simp: scanLinks_step split: if_splits)
    from Cons.IH[OF this] False show ?thesis by auto
  qed
qed

lemma relaxStep_char:
  assumes "relaxStep ls n d c ns = Inr (ns', c')"
  shows "\<exists>e m' h'. entryAt ns n d = Some e \<and> n \<in> nid ` set ns \<and>
           scanLinks n d ns ls (distance e, nextHop e, c) = Inr (m', h', c') \<and>
           (\<forall>a b. entryAt ns' a b =
              (if a = n \<and> b = d
               then Some \<lparr>distance = m', nextHop = h', isNew = (m' \<noteq> distance e),
                          entry.isProcessing = False, calculated = True\<rparr>
               else entryAt ns a b)) \<and>
           map nid ns' = map nid ns"
proof -
  from assms obtain x where x: "findNode n ns = Some x"
    by (auto simp: relaxStep_def split: option.splits)
  with assms obtain e where e: "map_of (routingTable x) d = Some e"
    by (auto simp: relaxStep_def split: option.splits)
  have ea: "entryAt ns n d = Some e" using x e by (simp add: entryAt_def)
  have nin: "n \<in> nid ` set ns" using x findNode_None[of n ns] by auto
  let ?ns1 = "updateNode n (setEntry d (e\<lparr>entry.isProcessing := True\<rparr>)) ns"
  have same: "scanLinks n d ?ns1 ls acc = scanLinks n d ns ls acc" for acc
  proof (rule scanLinks_cong)
    show "(findNode h ?ns1 = None) = (findNode h ns = None)" for h
      by (simp add: findNode_None)
    show "nd ?ns1 h d = nd ns h d" for h
      using ea by (auto simp: nd_def entryAt_updateNode)
  qed
  from assms x e obtain m' h' where
    sc: "scanLinks n d ns ls (distance e, nextHop e, c) = Inr (m', h', c')" and
    ns': "ns' = updateNode n (setEntry d \<lparr>distance = m', nextHop = h', isNew = (m' \<noteq> distance e),
                          entry.isProcessing = False, calculated = True\<rparr>) ?ns1"
    by (auto simp: relaxStep_def Let_def same split: sum.splits)
  show ?thesis
    using ea nin sc unfolding ns' by (auto simp: entryAt_updateNode)
qed

lemma relaxStep_total:
  assumes "entryAt ns n d = Some e"
    and "\<forall>l \<in> set ls. incident l n \<longrightarrow> other l n \<in> nid ` set ns"
  shows "\<exists>r. relaxStep ls n d c ns = Inr r"
proof -
  from assms(1) obtain x where x: "findNode n ns = Some x" "map_of (routingTable x) d = Some e"
    by (auto simp: entryAt_def split: option.splits)
  let ?ns1 = "updateNode n (setEntry d (e\<lparr>entry.isProcessing := True\<rparr>)) ns"
  have "\<exists>r. scanLinks n d ?ns1 ls (distance e, nextHop e, c) = Inr r"
    by (rule scanLinks_total) (use assms(2) in simp)
  then show ?thesis using x by (auto simp: relaxStep_def Let_def)
qed

section \<open>Walks\<close>

lemma walkWeight_simps [simp]:
  "walkWeight [] = 0" "walkWeight (l # p) = weight l + walkWeight p"
  "walkWeight (p @ q) = walkWeight p + walkWeight q"
  by (simp_all add: walkWeight_def)

lemma walk_endOf: "walk ls a p b \<Longrightarrow> endOf a p = b"
  by (induction p arbitrary: a) auto

lemma walk_append:
  "walk ls a (p @ q) b = (walk ls a p (endOf a p) \<and> walk ls (endOf a p) q b)"
  by (induction p arbitrary: a) auto

lemma endOf_append: "endOf a (p @ q) = endOf (endOf a p) q"
  by (induction p arbitrary: a) auto

lemma other_in_ids:
  "goodLinks ids ls \<Longrightarrow> l \<in> set ls \<Longrightarrow> other l a \<in> set ids"
  by (auto simp: goodLinks_def other_def)

lemma incident_in_ids:
  "goodLinks ids ls \<Longrightarrow> l \<in> set ls \<Longrightarrow> incident l a \<Longrightarrow> a \<in> set ids"
  by (auto simp: goodLinks_def incident_def)

lemma walk_ends_in_ids:
  "goodLinks ids ls \<Longrightarrow> walk ls a p b \<Longrightarrow> a \<in> set ids \<Longrightarrow> b \<in> set ids"
  by (induction p arbitrary: a) (auto dest: other_in_ids)

lemma walk_start_in_ids:
  "goodLinks ids ls \<Longrightarrow> walk ls a p b \<Longrightarrow> p \<noteq> [] \<Longrightarrow> a \<in> set ids"
  by (cases p) (auto dest: incident_in_ids)

lemma walkWeight_nonneg: "goodLinks ids ls \<Longrightarrow> walk ls a p b \<Longrightarrow> 0 \<le> walkWeight p"
  by (induction p arbitrary: a) (auto simp: goodLinks_def intro: add_nonneg_nonneg less_imp_le)

lemma walkWeight_pos:
  "goodLinks ids ls \<Longrightarrow> walk ls a p b \<Longrightarrow> p \<noteq> [] \<Longrightarrow> 0 < walkWeight p"
  by (cases p) (auto simp: goodLinks_def dest!: walkWeight_nonneg[rotated] intro: add_pos_nonneg)

lemma walk_take: "walk ls a p b \<Longrightarrow> walk ls a (take i p) (endOf a (take i p))"
  using walk_append[of ls a "take i p" "drop i p" b] by simp

lemma walk_drop: "walk ls a p b \<Longrightarrow> walk ls (endOf a (take i p)) (drop i p) b"
  using walk_append[of ls a "take i p" "drop i p" b] by simp

lemma walk_shorten:
  assumes g: "goodLinks ids ls"
  shows "walk ls a p b \<Longrightarrow>
         \<exists>q. walk ls a q b \<and> length q \<le> length ids \<and> walkWeight q \<le> walkWeight p"
proof (induction "length p" arbitrary: p rule: less_induct)
  case less
  show ?case
  proof (cases "length p \<le> length ids")
    case True
    with less.prems show ?thesis by blast
  next
    case False
    then have pne: "p \<noteq> []" by auto
    let ?f = "\<lambda>i. endOf a (take i p)"
    have ain: "a \<in> set ids" using walk_start_in_ids[OF g less.prems pne] .
    have sub: "?f ` {0..length p} \<subseteq> set ids"
    proof
      fix v assume "v \<in> ?f ` {0..length p}"
      then obtain i where "v = ?f i" by auto
      with walk_ends_in_ids[OF g walk_take[OF less.prems, of i] ain] show "v \<in> set ids" by simp
    qed
    have "card (?f ` {0..length p}) \<le> card (set ids)"
      by (rule card_mono[OF _ sub]) simp
    also have "\<dots> \<le> length ids" by (rule card_length)
    also have "\<dots> < card {0..length p}" using False by simp
    finally have "\<not> inj_on ?f {0..length p}" by (rule pigeonhole)
    then obtain i j where ij: "i \<le> length p" "j \<le> length p" "i \<noteq> j" "?f i = ?f j"
      by (auto simp: inj_on_def)
    have cut: "\<exists>q. walk ls a q b \<and> length q < length p \<and> walkWeight q \<le> walkWeight p"
      if lt: "i < j" and j: "j \<le> length p" and eq: "endOf a (take i p) = endOf a (take j p)" for i j
    proof -
      let ?q = "take i p @ drop j p"
      have w1: "walk ls a (take i p) (endOf a (take i p))" by (rule walk_take[OF less.prems])
      have w2: "walk ls (endOf a (take i p)) (drop j p) b"
        unfolding eq by (rule walk_drop[OF less.prems])
      have wq: "walk ls a ?q b" using w1 w2 by (simp add: walk_append)
      have len: "length ?q < length p" using lt j by simp
      have tk: "take j p = take i p @ drop i (take j p)"
        using lt by (metis append_take_drop_id less_imp_le min.absorb2 take_take min.commute)
      have wm: "walk ls (endOf a (take i p)) (drop i (take j p)) (endOf a (take j p))"
        using walk_take[OF less.prems, of j] tk walk_append[of ls a "take i p" "drop i (take j p)"]
        by (metis endOf_append walk_endOf)
      have "0 \<le> walkWeight (drop i (take j p))" by (rule walkWeight_nonneg[OF g wm])
      moreover have "walkWeight p = walkWeight (take j p) + walkWeight (drop j p)"
        by (metis append_take_drop_id walkWeight_simps(3))
      moreover have "walkWeight (take j p) = walkWeight (take i p) + walkWeight (drop i (take j p))"
        by (metis tk walkWeight_simps(3))
      ultimately have "walkWeight ?q \<le> walkWeight p" by simp
      with wq len show ?thesis by blast
    qed
    from ij have "i < j \<or> j < i" by auto
    then obtain q where q: "walk ls a q b" "length q < length p" "walkWeight q \<le> walkWeight p"
      using cut[of i j] cut[of j i] ij by metis
    from less.hyps[OF q(2) q(1)] q(3) show ?thesis by (meson order_trans)
  qed
qed

section \<open>Bounds on the entries\<close>

lemma lowers_refl: "lowers ns ns"
  by (auto simp: lowers_def)

lemma lowers_trans: "lowers a b \<Longrightarrow> lowers b c \<Longrightarrow> lowers a c"
  unfolding lowers_def by (meson order_trans)

lemma within_lowers: "lowers ns ns' \<Longrightarrow> within ls ns k n d \<Longrightarrow> within ls ns' k n d"
  unfolding lowers_def within_def by (meson order_trans)

lemma within_mono: "within ls ns k n d \<Longrightarrow> j \<le> k \<Longrightarrow> within ls ns j n d"
  unfolding within_def by (meson order_trans)

lemma allWithin_lowers: "lowers ns ns' \<Longrightarrow> allWithin ls ns k \<Longrightarrow> allWithin ls ns' k"
  unfolding allWithin_def using within_lowers by blast

lemma allWithin_mono: "allWithin ls ns k \<Longrightarrow> j \<le> k \<Longrightarrow> allWithin ls ns j"
  unfolding allWithin_def using within_mono by blast

lemma nd_sameDist: "sameDist ns ns' \<Longrightarrow> nd ns' h d = nd ns h d"
proof -
  assume "sameDist ns ns'"
  then have "map_option distance (entryAt ns' h d) = map_option distance (entryAt ns h d)"
    by (simp add: sameDist_def)
  then show ?thesis by (auto simp: nd_def split: option.splits)
qed

lemma settled_sameDist:
  assumes "sameDist ns ns'" "settled ls ns n d"
  shows "settled ls ns' n d"
proof -
  from assms(2) obtain e where e: "entryAt ns n d = Some e"
    "\<forall>l \<in> set ls. incident l n \<longrightarrow> distance e \<le> cand ns l n d"
    by (auto simp: settled_def)
  from assms(1) have "map_option distance (entryAt ns' n d) = map_option distance (entryAt ns n d)"
    by (simp add: sameDist_def)
  with e(1) obtain e' where e': "entryAt ns' n d = Some e'" "distance e' = distance e" by auto
  with e(2) show ?thesis
    by (auto simp: settled_def cand_def nd_sameDist[OF assms(1)])
qed

lemma sound_pos:
  assumes "goodLinks ids ls" "sound ls ns" "entryAt ns n d = Some e"
  shows "0 < distance e"
proof (cases "distance e < INFINITY")
  case True
  with assms(2,3) obtain p where "p \<noteq> []" "walk ls n p d" "walkWeight p = distance e"
    unfolding sound_def by blast
  with walkWeight_pos[OF assms(1)] show ?thesis by metis
next
  case False then show ?thesis by (simp add: INFINITY_def)
qed

lemma nd_sound:
  assumes "goodLinks ids ls" "sound ls ns" "entryAt ns h d = Some e"
  shows "nd ns h d = distance e"
  using sound_pos[OF assms] assms(3) by (simp add: nd_def)

text \<open>One more link on every walk, at a pair whose entry no incident link can improve.\<close>

lemma within_Suc:
  assumes g: "goodLinks ids ls" and s: "sound ls ns" and all: "allWithin ls ns k"
    and one: "within ls ns 1 n d" and st: "settled ls ns n d" and ne: "n \<noteq> d"
  shows "within ls ns (Suc k) n d"
  unfolding within_def
proof (intro allI impI)
  fix p assume p: "walk ls n p d \<and> length p \<le> Suc k \<and> walkWeight p < INFINITY"
  with ne obtain l q where pq: "p = l # q" by (cases p) auto
  with p have l: "l \<in> set ls" "incident l n" and q: "walk ls (other l n) q d" "length q \<le> k"
    by auto
  from st obtain e where e: "entryAt ns n d = Some e"
    "\<forall>l \<in> set ls. incident l n \<longrightarrow> distance e \<le> cand ns l n d"
    by (auto simp: settled_def)
  have qn: "0 \<le> walkWeight q" by (rule walkWeight_nonneg[OF g q(1)])
  have wl: "0 < weight l" using g l(1) by (simp add: goodLinks_def)
  show "\<exists>e. entryAt ns n d = Some e \<and> distance e \<le> walkWeight p"
  proof (cases "other l n = d")
    case True
    then have "walk ls n [l] d" using l by simp
    moreover have "walkWeight [l] < INFINITY" using p pq qn by simp
    moreover from one have "walk ls n [l] d \<and> length [l] \<le> 1 \<and> walkWeight [l] < INFINITY \<longrightarrow>
        (\<exists>e. entryAt ns n d = Some e \<and> distance e \<le> walkWeight [l])"
      unfolding within_def by blast
    ultimately obtain e1 where "entryAt ns n d = Some e1" "distance e1 \<le> walkWeight [l]"
      by auto
    with qn pq show ?thesis by auto
  next
    case False
    have "walkWeight q < INFINITY" using p pq wl by simp
    with all False q obtain e' where e': "entryAt ns (other l n) d = Some e'"
      "distance e' \<le> walkWeight q"
      unfolding allWithin_def within_def by blast
    have "cand ns l n d = weight l + distance e'"
      by (simp add: cand_def nd_sound[OF g s e'(1)])
    with e l e'(2) pq show ?thesis by force
  qed
qed

lemma allWithin_settled:
  assumes g: "goodLinks ids ls" and s: "sound ls ns" and one: "allWithin ls ns 1"
    and st: "\<forall>n \<in> set ids. \<forall>d \<in> set ids. n \<noteq> d \<longrightarrow> settled ls ns n d"
  shows "allWithin ls ns k"
proof (induction k)
  case 0
  show ?case by (rule allWithin_mono[OF one]) simp
next
  case (Suc k)
  show ?case unfolding allWithin_def
  proof (intro allI impI)
    fix n d :: string assume ne: "n \<noteq> d"
    show "within ls ns (Suc k) n d"
    proof (cases "n \<in> set ids \<and> d \<in> set ids")
      case True
      with st ne have "settled ls ns n d" by blast
      moreover from one ne have "within ls ns 1 n d" by (simp add: allWithin_def)
      ultimately show ?thesis using within_Suc[OF g s Suc] ne by blast
    next
      case False
      have "\<not> walk ls n p d" for p
      proof
        assume w: "walk ls n p d"
        with ne have "p \<noteq> []" by auto
        from walk_start_in_ids[OF g w this] walk_ends_in_ids[OF g w] False show False by blast
      qed
      then show ?thesis by (simp add: within_def)
    qed
  qed
qed

text \<open>Bounds for walks of at most \<open>length ids\<close> links are bounds for every walk.\<close>

lemma allWithin_all:
  assumes g: "goodLinks ids ls" and all: "allWithin ls ns (length ids)"
  shows "allWithin ls ns k"
  unfolding allWithin_def within_def
proof (intro allI impI)
  fix n d :: string and p
  assume ne: "n \<noteq> d" and p: "walk ls n p d \<and> length p \<le> k \<and> walkWeight p < INFINITY"
  from walk_shorten[OF g] p obtain q where
    q: "walk ls n q d" "length q \<le> length ids" "walkWeight q \<le> walkWeight p" by blast
  with p have "walkWeight q < INFINITY" by simp
  with all ne q obtain e where "entryAt ns n d = Some e" "distance e \<le> walkWeight q"
    unfolding allWithin_def within_def by blast
  with q(3) show "\<exists>e. entryAt ns n d = Some e \<and> distance e \<le> walkWeight p" by force
qed

section \<open>A relaxation step keeps the tables sound\<close>

lemma other_neq:
  "goodLinks ids ls \<Longrightarrow> l \<in> set ls \<Longrightarrow> incident l n \<Longrightarrow> other l n \<noteq> n"
  by (auto simp: goodLinks_def incident_def other_def)

lemma relaxStep_inv:
  assumes g: "goodLinks ids ls" and i: "tablesOk ids ls ns"
    and n: "n \<in> set ids" and d: "d \<in> set ids" and ne: "n \<noteq> d"
  shows "\<exists>ns' c'. relaxStep ls n d c ns = Inr (ns', c') \<and> tablesOk ids ls ns' \<and> lowers ns ns' \<and>
           settled ls ns' n d \<and> (c \<longrightarrow> c') \<and> (\<not> c' \<longrightarrow> sameDist ns ns')"
proof -
  from i have cp: "complete ids ns" and so: "sound ls ns" and ho: "hopOk ls ns"
    by (simp_all add: tablesOk_def)
  from cp have ids: "map nid ns = ids" by (simp add: complete_def)
  then have sids: "nid ` set ns = set ids" by (metis set_map)
  from cp n d ne obtain e where e: "entryAt ns n d = Some e" by (auto simp: complete_def)
  have "\<forall>l \<in> set ls. incident l n \<longrightarrow> other l n \<in> nid ` set ns"
    using other_in_ids[OF g] sids by simp
  from relaxStep_total[OF e this, of c] obtain ns' c' where
    r: "relaxStep ls n d c ns = Inr (ns', c')" by (metis surj_pair)
  from relaxStep_char[OF r] e obtain m' h' where
    sc: "scanLinks n d ns ls (distance e, nextHop e, c) = Inr (m', h', c')" and
    E': "\<And>a b. entryAt ns' a b =
              (if a = n \<and> b = d
               then Some \<lparr>distance = m', nextHop = h', isNew = (m' \<noteq> distance e),
                          entry.isProcessing = False, calculated = True\<rparr>
               else entryAt ns a b)" and
    ids': "map nid ns' = map nid ns"
    by auto
  let ?e' = "\<lparr>distance = m', nextHop = h', isNew = (m' \<noteq> distance e),
              entry.isProcessing = False, calculated = True\<rparr>"
  from scanLinks_bounds[OF sc] have le: "m' \<le> distance e"
    and best: "\<forall>l \<in> set ls. incident l n \<longrightarrow> m' \<le> cand ns l n d" and cc: "c \<longrightarrow> c'"
    by auto
  from scanLinks_origin[OF sc] have org:
    "(m' = distance e \<and> h' = nextHop e \<and> c' = c) \<or>
     (m' < distance e \<and> c' \<and> (\<exists>l \<in> set ls. incident l n \<and> m' = cand ns l n d \<and> h' = other l n))" .
  have ndsame: "nd ns' h b = nd ns h b" if "h \<noteq> n \<or> b \<noteq> d" for h b
    using that by (auto simp: nd_def E')
  have legle: "\<exists>y. leg ns' h b = Some y \<and> y \<le> x" if "leg ns h b = Some x" for h b x
    using that e le by (auto simp: leg_def E' split: if_splits)
  have legsame: "leg ns' h b = leg ns h b" if "h \<noteq> n" for h b
    using that by (auto simp: leg_def E')
  \<comment> \<open>the candidate that was stored, when one was\<close>
  have improved: "\<exists>l \<in> set ls. \<exists>e1 p. incident l n \<and> other l n = h' \<and>
        entryAt ns h' d = Some e1 \<and> distance e1 < INFINITY \<and> m' = weight l + distance e1 \<and>
        p \<noteq> [] \<and> walk ls h' p d \<and> walkWeight p = distance e1 \<and> h' \<noteq> d"
    if lt: "m' < distance e" and fin: "m' < INFINITY"
  proof -
    from org lt obtain l where l: "l \<in> set ls" "incident l n" "m' = cand ns l n d" "h' = other l n"
      by auto
    have wl: "0 < weight l" using g l(1) by (simp add: goodLinks_def)
    with l(3) fin have ndlt: "nd ns h' d < INFINITY" by (simp add: cand_def l(4))
    then obtain e1 where e1: "entryAt ns h' d = Some e1"
      by (auto simp: nd_def split: option.splits)
    from nd_sound[OF g so e1] ndlt have d1: "nd ns h' d = distance e1" "distance e1 < INFINITY"
      by simp_all
    from so e1 d1(2) obtain p where p: "p \<noteq> []" "walk ls h' p d" "walkWeight p = distance e1"
      unfolding sound_def by blast
    have hin: "h' \<in> set ids" using other_in_ids[OF g l(1)] l(4) by simp
    with cp d e1 have "h' \<noteq> d" by (auto simp: complete_def)
    with l e1 d1 p show ?thesis by (auto simp: cand_def)
  qed
  have cp': "complete ids ns'"
    using cp ids' ne by (simp add: complete_def E')
  have so': "sound ls ns'"
    unfolding sound_def
  proof (intro allI impI)
    fix a b x assume x: "entryAt ns' a b = Some x"
    show "((distance x = INFINITY \<and> nextHop x = ''-'') \<or> (\<exists>p. p \<noteq> [] \<and> walk ls a p b)) \<and>
          (distance x < INFINITY \<longrightarrow> (\<exists>p. p \<noteq> [] \<and> walk ls a p b \<and> walkWeight p = distance x))"
    proof (cases "a = n \<and> b = d")
      case False
      with x have "entryAt ns a b = Some x" by (simp add: E')
      with so show ?thesis unfolding sound_def by blast
    next
      case True
      with x have xe: "x = ?e'" by (simp add: E')
      from so e have olde:
        "(distance e = INFINITY \<and> nextHop e = ''-'') \<or> (\<exists>p. p \<noteq> [] \<and> walk ls n p d)"
        "distance e < INFINITY \<longrightarrow> (\<exists>p. p \<noteq> [] \<and> walk ls n p d \<and> walkWeight p = distance e)"
        unfolding sound_def by blast+
      show ?thesis
      proof (cases "m' < distance e")
        case False
        with org have "m' = distance e" "h' = nextHop e" by auto
        with olde True xe show ?thesis by simp
      next
        case lt: True
        have w: "\<exists>p. p \<noteq> [] \<and> walk ls n p d \<and> walkWeight p = m'" if "m' < INFINITY"
        proof -
          from improved[OF lt that] obtain l and e1 :: entry and p where
            "l \<in> set ls" "incident l n" "other l n = h'" "m' = weight l + distance e1"
            "walk ls h' p d" "walkWeight p = distance e1" by metis
          then have "walk ls n (l # p) d \<and> walkWeight (l # p) = m'" by simp
          then show ?thesis by blast
        qed
        have "\<exists>p. p \<noteq> [] \<and> walk ls n p d"
        proof (cases "distance e = INFINITY")
          case True with lt w show ?thesis by auto
        next
          case False with olde(1) show ?thesis by simp
        qed
        with w True xe show ?thesis by simp
      qed
    qed
  qed
  have ho': "hopOk ls ns'"
    unfolding hopOk_def
  proof (intro allI impI)
    fix a b x assume x: "entryAt ns' a b = Some x \<and> distance x < INFINITY"
    show "\<exists>l \<in> set ls. \<exists>y. incident l a \<and> other l a = nextHop x \<and>
            leg ns' (nextHop x) b = Some y \<and> weight l + y \<le> distance x"
    proof (cases "a = n \<and> b = d")
      case False
      with x have "entryAt ns a b = Some x" by (simp add: E')
      with ho x obtain l y where "l \<in> set ls" "incident l a" "other l a = nextHop x"
        "leg ns (nextHop x) b = Some y" "weight l + y \<le> distance x"
        unfolding hopOk_def by blast
      with legle[of "nextHop x" b y] show ?thesis by force
    next
      case True
      with x have xe: "x = ?e'" and fin: "m' < INFINITY" by (auto simp: E')
      show ?thesis
      proof (cases "m' < distance e")
        case False
        with org have eq: "m' = distance e" "h' = nextHop e" by auto
        with ho e fin obtain l y where l: "l \<in> set ls" "incident l n" "other l n = nextHop e"
          "leg ns (nextHop e) d = Some y" "weight l + y \<le> distance e"
          unfolding hopOk_def by blast
        have "nextHop e \<noteq> n" using other_neq[OF g l(1,2)] l(3) by simp
        from legsame[OF this] l eq True xe show ?thesis by force
      next
        case lt: True
        from improved[OF lt fin] obtain l e1 where l: "l \<in> set ls" "incident l n" "other l n = h'"
          "entryAt ns h' d = Some e1" "m' = weight l + distance e1" "h' \<noteq> d" by metis
        have "h' \<noteq> n" using other_neq[OF g l(1,2)] l(3) by simp
        from legsame[OF this, of d] l(4,6) have "leg ns' h' d = Some (distance e1)"
          by (simp add: leg_def)
        with l True xe show ?thesis by force
      qed
    qed
  qed
  have lo: "lowers ns ns'"
    unfolding lowers_def using e le by (auto simp: E')
  have st: "settled ls ns' n d"
    unfolding settled_def
  proof (intro exI conjI ballI impI)
    show "entryAt ns' n d = Some ?e'" by (simp add: E')
    fix l assume l: "l \<in> set ls" "incident l n"
    have "cand ns' l n d = cand ns l n d"
      using other_neq[OF g l] by (simp add: cand_def ndsame)
    with best l show "distance ?e' \<le> cand ns' l n d" by simp
  qed
  have sd: "sameDist ns ns'" if "\<not> c'"
  proof -
    from org that have "m' = distance e" by auto
    with e show ?thesis by (auto simp: sameDist_def E')
  qed
  from r cp' so' ho' lo st cc sd show ?thesis by (auto simp: tablesOk_def)
qed

section \<open>The loop over the pairs and the loop of passes\<close>

lemma observe_empty: "pending rs = [] \<Longrightarrow> observe rs = (NotPaused, rs)"
  by (simp add: observe_def)

lemma observe_cases:
  "observe rs = (p, rs1) \<Longrightarrow>
     newNodes rs1 = newNodes rs \<and> hasChanges rs1 = hasChanges rs \<and> store rs1 = store rs \<and>
     set (pending rs1) \<subseteq> set (pending rs) \<and> (p = NotPaused \<or> p \<in> set (pending rs))"
  by (auto simp: observe_def split: list.splits)

lemma relaxUnit_Inr:
  "relaxStep ls n d (hasChanges rs) (newNodes rs) = Inr (ns, c) \<Longrightarrow>
   \<exists>rs'. relaxUnit ls n d rs = Inr rs' \<and> newNodes rs' = ns \<and> hasChanges rs' = c \<and>
     pending rs' = pending rs"
  by (simp add: relaxUnit_def publish_def setStatus_def)

lemma relaxUnit_char:
  "relaxUnit ls n d rs = Inr rs' \<Longrightarrow>
   relaxStep ls n d (hasChanges rs) (newNodes rs) = Inr (newNodes rs', hasChanges rs') \<and>
     pending rs' = pending rs"
  by (auto simp: relaxUnit_def publish_def setStatus_def split: sum.splits)

lemma setStatus_fields [simp]:
  "newNodes (setStatus m rs) = newNodes rs" "hasChanges (setStatus m rs) = hasChanges rs"
  "pending (setStatus m rs) = pending rs"
  by (simp_all add: setStatus_def)

lemma publish_fields [simp]:
  "newNodes (publish ls rs) = newNodes rs" "hasChanges (publish ls rs) = hasChanges rs"
  "pending (publish ls rs) = pending rs"
  "newNodes (publishNodes rs) = newNodes rs" "hasChanges (publishNodes rs) = hasChanges rs"
  "pending (publishNodes rs) = pending rs"
  by (simp_all add: publish_def publishNodes_def)

lemma startPass_fields [simp]:
  "newNodes (startPass p mp rs) = newNodes rs" "hasChanges (startPass p mp rs) = False"
  "pending (startPass p mp rs) = pending rs"
  by (simp_all add: startPass_def)

text \<open>A pass that is never paused: every pair is visited, in order.\<close>

lemma relaxPairs_rule:
  assumes "pending rs = []" and "I S (newNodes rs) (hasChanges rs)"
    and step: "\<And>S n d ns c. I S ns c \<Longrightarrow> (n, d) \<in> set ps \<Longrightarrow> n \<noteq> d \<Longrightarrow>
             \<exists>ns' c'. relaxStep ls n d c ns = Inr (ns', c') \<and> I (insert (n, d) S) ns' c'"
    and skip: "\<And>S n ns c. I S ns c \<Longrightarrow> (n, n) \<in> set ps \<Longrightarrow> I (insert (n, n) S) ns c"
  shows "\<exists>rs'. relaxPairs ls ps rs = Inr rs' \<and> pending rs' = [] \<and>
           I (S \<union> set ps) (newNodes rs') (hasChanges rs')"
  using assms
proof (induction ps arbitrary: rs S)
  case Nil
  then show ?case by simp
next
  case (Cons x ps)
  obtain n d where x: "x = (n, d)" by (cases x)
  have st: "\<And>S n d ns c. I S ns c \<Longrightarrow> (n, d) \<in> set ps \<Longrightarrow> n \<noteq> d \<Longrightarrow>
             \<exists>ns' c'. relaxStep ls n d c ns = Inr (ns', c') \<and> I (insert (n, d) S) ns' c'"
    using Cons.prems(3) by simp
  have sk: "\<And>S n ns c. I S ns c \<Longrightarrow> (n, n) \<in> set ps \<Longrightarrow> I (insert (n, n) S) ns c"
    using Cons.prems(4) by simp
  show ?case
  proof (cases "n = d")
    case True
    have "I (insert (n, n) S) (newNodes rs) (hasChanges rs)"
      using Cons.prems(4)[OF Cons.prems(2), of n] x True by simp
    from Cons.IH[OF Cons.prems(1) this st sk] show ?thesis
      using Cons.prems(1) x True by (simp add: observe_empty)
  next
    case False
    from Cons.prems(3)[OF Cons.prems(2), of n d] x False obtain ns' c' where
      r: "relaxStep ls n d (hasChanges rs) (newNodes rs) = Inr (ns', c')"
      and i': "I (insert (n, d) S) ns' c'" by auto
    from relaxUnit_Inr[OF r] obtain rs2 where rs2: "relaxUnit ls n d rs = Inr rs2"
      "newNodes rs2 = ns'" "hasChanges rs2 = c'" "pending rs2 = pending rs" by blast
    have "I (insert (n, d) S) (newNodes rs2) (hasChanges rs2)" using i' rs2 by simp
    from Cons.IH[OF _ this st sk] rs2 Cons.prems(1) show ?thesis
      using x False by (simp add: observe_empty)
  qed
qed

text \<open>A step, as far as its result exists, whatever the tables hold.\<close>

lemma relaxStep_lowers:
  assumes "relaxStep ls n d c ns = Inr (ns', c')"
  shows "lowers ns ns'"
proof -
  from relaxStep_char[OF assms] obtain e m' h' where
    e: "entryAt ns n d = Some e" and
    sc: "scanLinks n d ns ls (distance e, nextHop e, c) = Inr (m', h', c')" and
    E': "\<And>a b. entryAt ns' a b =
              (if a = n \<and> b = d
               then Some \<lparr>distance = m', nextHop = h', isNew = (m' \<noteq> distance e),
                          entry.isProcessing = False, calculated = True\<rparr>
               else entryAt ns a b)"
    by auto
  from scanLinks_bounds[OF sc] have "m' \<le> distance e" by simp
  with e show ?thesis by (auto simp: lowers_def E')
qed

lemma relaxPairs_preserves:
  assumes "relaxPairs ls ps rs = Inr rs'" and "K (newNodes rs)"
    and step: "\<And>n d c ns ns' c'. K ns \<Longrightarrow> relaxStep ls n d c ns = Inr (ns', c') \<Longrightarrow> K ns'"
  shows "K (newNodes rs')"
  using assms(1,2)
proof (induction ps arbitrary: rs)
  case Nil
  then show ?case by simp
next
  case (Cons x ps)
  obtain n d where x: "x = (n, d)" by (cases x)
  obtain p rs1 where o: "observe rs = (p, rs1)" by (cases "observe rs")
  from observe_cases[OF o] have same: "newNodes rs1 = newNodes rs" "hasChanges rs1 = hasChanges rs"
    by simp_all
  show ?case
  proof (cases p)
    case NotPaused
    show ?thesis
    proof (cases "n = d")
      case True
      with Cons.prems NotPaused o x have "relaxPairs ls ps rs1 = Inr rs'" by simp
      from Cons.IH[OF this] Cons.prems(2) same show ?thesis by simp
    next
      case False
      with Cons.prems NotPaused o x obtain rs2 where
        u: "relaxUnit ls n d rs1 = Inr rs2" and r: "relaxPairs ls ps rs2 = Inr rs'"
        by (auto split: sum.splits)
      from relaxUnit_char[OF u] step[of "newNodes rs1"] Cons.prems(2) same
      have "K (newNodes rs2)" by auto
      from Cons.IH[OF r this] show ?thesis .
    qed
  next
    case PausedThenResumed
    with Cons.prems o x have "relaxPairs ls ps (setStatus SimulationPaused rs1) = Inr rs'" by simp
    from Cons.IH[OF this] Cons.prems(2) same show ?thesis by simp
  next
    case PausedForever
    with Cons.prems o x show ?thesis by simp
  qed
qed

lemma relaxLoop_preserves:
  assumes "relaxLoop ls ids mp p rs = Inr (p', rs')" and "K (newNodes rs)"
    and "\<And>n d c ns ns' c'. K ns \<Longrightarrow> relaxStep ls n d c ns = Inr (ns', c') \<Longrightarrow> K ns'"
  shows "K (newNodes rs')"
  using assms
proof (induction ls ids mp p rs rule: relaxLoop.induct)
  case (1 ls ids mp p rs)
  note step = "1.prems"(3)
  show ?case
  proof (cases "hasChanges rs \<and> p \<le> mp")
    case False
    with "1.prems" show ?thesis by (simp add: relaxLoop.simps)
  next
    case True
    with "1.prems"(1) obtain rs1 where
      a: "relaxPairs ls (List.product ids ids) (startPass p mp rs) = Inr rs1" and
      b: "relaxLoop ls ids mp (p + 1) rs1 = Inr (p', rs')"
      by (subst (asm) relaxLoop.simps) (auto split: sum.splits)
    have "K (newNodes (startPass p mp rs))" using "1.prems"(2) by simp
    from relaxPairs_preserves[where K = K, OF a this] step have "K (newNodes rs1)" by blast
    from "1.IH"[OF True a b this] step show ?thesis by blast
  qed
qed

lemma relaxLoop_exit:
  assumes "relaxLoop ls ids mp p rs = Inr (p', rs')"
  shows "p \<le> p' \<and> p' \<le> max p (mp + 1) \<and> (\<not> hasChanges rs' \<or> mp < p')"
  using assms
proof (induction ls ids mp p rs rule: relaxLoop.induct)
  case (1 ls ids mp p rs)
  show ?case
  proof (cases "hasChanges rs \<and> p \<le> mp")
    case False
    with "1.prems" show ?thesis by (auto simp: relaxLoop.simps)
  next
    case True
    with "1.prems"(1) obtain rs1 where
      a: "relaxPairs ls (List.product ids ids) (startPass p mp rs) = Inr rs1" and
      b: "relaxLoop ls ids mp (p + 1) rs1 = Inr (p', rs')"
      by (subst (asm) relaxLoop.simps) (auto split: sum.splits)
    from "1.IH"[OF True a b] True show ?thesis by auto
  qed
qed

lemma within_outside:
  assumes g: "goodLinks ids ls" and ne: "n \<noteq> d" and out: "\<not> (n \<in> set ids \<and> d \<in> set ids)"
  shows "within ls ns k n d"
proof -
  have "\<not> walk ls n p d" for p
  proof
    assume w: "walk ls n p d"
    with ne have "p \<noteq> []" by auto
    from walk_start_in_ids[OF g w this] walk_ends_in_ids[OF g w] out show False by blast
  qed
  then show ?thesis by (simp add: within_def)
qed

lemma passInv_step:
  assumes g: "goodLinks ids ls" and all: "allWithin ls ns0 k" and k: "1 \<le> k"
    and I: "passInv ids ls ns0 k S ns c" and nd: "(n, d) \<in> set (List.product ids ids)"
    and ne: "n \<noteq> d"
  shows "\<exists>ns' c'. relaxStep ls n d c ns = Inr (ns', c') \<and> passInv ids ls ns0 k (insert (n, d) S) ns' c'"
proof -
  from nd have n: "n \<in> set ids" and d: "d \<in> set ids" by auto
  from I have i: "tablesOk ids ls ns" and lo: "lowers ns0 ns"
    and wi: "\<forall>(a, b) \<in> S. a \<noteq> b \<longrightarrow> within ls ns (Suc k) a b"
    and se: "\<not> c \<longrightarrow> (\<forall>(a, b) \<in> S. a \<noteq> b \<longrightarrow> settled ls ns a b)"
    by (simp_all add: passInv_def)
  from relaxStep_inv[OF g i n d ne, of c] obtain ns' c' where
    r: "relaxStep ls n d c ns = Inr (ns', c')" and i': "tablesOk ids ls ns'" and lo': "lowers ns ns'"
    and st: "settled ls ns' n d" and cc: "c \<longrightarrow> c'" and sd: "\<not> c' \<longrightarrow> sameDist ns ns'"
    by blast
  have lo0: "lowers ns0 ns'" by (rule lowers_trans[OF lo lo'])
  have all': "allWithin ls ns' k" by (rule allWithin_lowers[OF lo0 all])
  have one: "within ls ns' 1 n d"
    using allWithin_mono[OF all' k] ne by (simp add: allWithin_def)
  have so': "sound ls ns'" using i' by (simp add: tablesOk_def)
  have new: "within ls ns' (Suc k) n d" by (rule within_Suc[OF g so' all' one st ne])
  have wi': "\<forall>(a, b) \<in> insert (n, d) S. a \<noteq> b \<longrightarrow> within ls ns' (Suc k) a b"
  proof (clarify)
    fix a b assume ab: "(a, b) \<in> insert (n, d) S" "a \<noteq> b"
    show "within ls ns' (Suc k) a b"
    proof (cases "(a, b) = (n, d)")
      case True
      with new show ?thesis by simp
    next
      case False
      with ab wi have "within ls ns (Suc k) a b" by auto
      then show ?thesis by (rule within_lowers[OF lo'])
    qed
  qed
  have se': "\<not> c' \<longrightarrow> (\<forall>(a, b) \<in> insert (n, d) S. a \<noteq> b \<longrightarrow> settled ls ns' a b)"
  proof (clarify)
    fix a b assume nc: "\<not> c'" and ab: "(a, b) \<in> insert (n, d) S" "a \<noteq> b"
    from nc cc have c: "\<not> c" by blast
    from sd nc have same: "sameDist ns ns'" by blast
    show "settled ls ns' a b"
    proof (cases "(a, b) = (n, d)")
      case True
      with st show ?thesis by simp
    next
      case False
      with ab se c have "settled ls ns a b" by auto
      then show ?thesis by (rule settled_sameDist[OF same])
    qed
  qed
  show ?thesis
    unfolding passInv_def using r i' lo0 wi' se' by (intro exI conjI) assumption+
qed

lemma pass_progress:
  assumes g: "goodLinks ids ls" and np: "pending rs = []" and i: "tablesOk ids ls (newNodes rs)"
    and all: "allWithin ls (newNodes rs) k" and k: "1 \<le> k" and nc: "\<not> hasChanges rs"
  shows "\<exists>rs'. relaxPairs ls (List.product ids ids) rs = Inr rs' \<and> pending rs' = [] \<and>
           tablesOk ids ls (newNodes rs') \<and> lowers (newNodes rs) (newNodes rs') \<and>
           allWithin ls (newNodes rs') (Suc k) \<and>
           (\<not> hasChanges rs' \<longrightarrow>
              (\<forall>n \<in> set ids. \<forall>d \<in> set ids. n \<noteq> d \<longrightarrow> settled ls (newNodes rs') n d))"
proof -
  let ?I = "passInv ids ls (newNodes rs) k"
  have start: "?I {} (newNodes rs) (hasChanges rs)"
    using i by (simp add: passInv_def lowers_refl)
  have "\<exists>rs'. relaxPairs ls (List.product ids ids) rs = Inr rs' \<and> pending rs' = [] \<and>
           ?I ({} \<union> set (List.product ids ids)) (newNodes rs') (hasChanges rs')"
  proof (rule relaxPairs_rule[where I = ?I, OF np start])
    fix S n d ns c
    assume "?I S ns c" "(n, d) \<in> set (List.product ids ids)" "n \<noteq> d"
    then show "\<exists>ns' c'. relaxStep ls n d c ns = Inr (ns', c') \<and> ?I (insert (n, d) S) ns' c'"
      by (rule passInv_step[OF g all k])
  next
    fix S n ns c
    assume "?I S ns c"
    then show "?I (insert (n, n) S) ns c" by (simp add: passInv_def)
  qed
  then obtain rs' where r: "relaxPairs ls (List.product ids ids) rs = Inr rs'" "pending rs' = []"
    and I': "?I (set ids \<times> set ids) (newNodes rs') (hasChanges rs')" by auto
  from I' have wi: "\<And>n d. n \<in> set ids \<Longrightarrow> d \<in> set ids \<Longrightarrow> n \<noteq> d \<Longrightarrow>
      within ls (newNodes rs') (Suc k) n d"
    by (auto simp: passInv_def)
  have "allWithin ls (newNodes rs') (Suc k)"
    unfolding allWithin_def using wi within_outside[OF g] by blast
  with r I' show ?thesis by (auto simp: passInv_def)
qed

lemma relaxLoop_progress:
  assumes "goodLinks ids ls" and "pending rs = []" and "tablesOk ids ls (newNodes rs)"
    and "allWithin ls (newNodes rs) (nat p)" and "1 \<le> p"
    and "\<not> hasChanges rs \<longrightarrow>
           (\<forall>n \<in> set ids. \<forall>d \<in> set ids. n \<noteq> d \<longrightarrow> settled ls (newNodes rs) n d)"
  shows "\<exists>p' rs'. relaxLoop ls ids mp p rs = Inr (p', rs') \<and> pending rs' = [] \<and>
           tablesOk ids ls (newNodes rs') \<and> lowers (newNodes rs) (newNodes rs') \<and>
           allWithin ls (newNodes rs') (nat p') \<and> 1 \<le> p' \<and>
           (\<not> hasChanges rs' \<longrightarrow>
              (\<forall>n \<in> set ids. \<forall>d \<in> set ids. n \<noteq> d \<longrightarrow> settled ls (newNodes rs') n d)) \<and>
           (\<not> hasChanges rs' \<or> mp < p')"
  using assms
proof (induction ls ids mp p rs rule: relaxLoop.induct)
  case (1 ls ids mp p rs)
  show ?case
  proof (cases "hasChanges rs \<and> p \<le> mp")
    case False
    with "1.prems" show ?thesis
      by (subst relaxLoop.simps) (auto simp: lowers_refl)
  next
    case True
    let ?rs0 = "startPass p mp rs"
    have k: "1 \<le> nat p" using "1.prems"(5) by simp
    from pass_progress[OF "1.prems"(1), of ?rs0 "nat p"] "1.prems"(2,3,4) k
    obtain rs1 where a: "relaxPairs ls (List.product ids ids) ?rs0 = Inr rs1"
      and b: "pending rs1 = []" "tablesOk ids ls (newNodes rs1)" "lowers (newNodes rs) (newNodes rs1)"
        "allWithin ls (newNodes rs1) (Suc (nat p))"
        "\<not> hasChanges rs1 \<longrightarrow>
           (\<forall>n \<in> set ids. \<forall>d \<in> set ids. n \<noteq> d \<longrightarrow> settled ls (newNodes rs1) n d)"
      by auto
    have np: "nat (p + 1) = Suc (nat p)" using "1.prems"(5) by simp
    from "1.IH"[OF True a "1.prems"(1) b(1,2)] b(4,5) np "1.prems"(5)
    obtain p' rs' where c: "relaxLoop ls ids mp (p + 1) rs1 = Inr (p', rs')" "pending rs' = []"
      "tablesOk ids ls (newNodes rs')" "lowers (newNodes rs1) (newNodes rs')"
      "allWithin ls (newNodes rs') (nat p')" "1 \<le> p'"
      "\<not> hasChanges rs' \<longrightarrow>
           (\<forall>n \<in> set ids. \<forall>d \<in> set ids. n \<noteq> d \<longrightarrow> settled ls (newNodes rs') n d)"
      "\<not> hasChanges rs' \<or> mp < p'"
      by auto
    have "relaxLoop ls ids mp p rs = Inr (p', rs')"
      using True a c(1) by (subst relaxLoop.simps) simp
    with c lowers_trans[OF b(3) c(4)] show ?thesis by blast
  qed
qed

lemma optimal_allWithin: "(\<And>k. allWithin ls ns k) \<Longrightarrow> optimal ls ns"
  unfolding optimal_def allWithin_def within_def by (meson order_refl)

lemma relaxLoop_optimal:
  assumes g: "goodLinks ids ls" and np: "pending rs = []" and i: "tablesOk ids ls (newNodes rs)"
    and one: "allWithin ls (newNodes rs) 1" and ch: "hasChanges rs"
  shows "\<exists>p' rs'. relaxLoop ls ids (int (length ids) - 1) 1 rs = Inr (p', rs') \<and> pending rs' = [] \<and>
           tablesOk ids ls (newNodes rs') \<and> lowers (newNodes rs) (newNodes rs') \<and>
           optimal ls (newNodes rs')"
proof -
  from relaxLoop_progress[OF g np i, of 1 "int (length ids) - 1"] one ch
  obtain p' rs' where r: "relaxLoop ls ids (int (length ids) - 1) 1 rs = Inr (p', rs')"
    "pending rs' = []" "tablesOk ids ls (newNodes rs')" "lowers (newNodes rs) (newNodes rs')"
    and w: "allWithin ls (newNodes rs') (nat p')" "1 \<le> p'"
    and st: "\<not> hasChanges rs' \<longrightarrow>
           (\<forall>n \<in> set ids. \<forall>d \<in> set ids. n \<noteq> d \<longrightarrow> settled ls (newNodes rs') n d)"
    and ex: "\<not> hasChanges rs' \<or> int (length ids) - 1 < p'"
    by auto
  have so: "sound ls (newNodes rs')" using r(3) by (simp add: tablesOk_def)
  have "allWithin ls (newNodes rs') k" for k
  proof (cases "hasChanges rs'")
    case False
    have "allWithin ls (newNodes rs') 1" by (rule allWithin_mono[OF w(1)]) (use w(2) in simp)
    from allWithin_settled[OF g so this] st False show ?thesis by blast
  next
    case True
    with ex have "length ids \<le> nat p'" by simp
    from allWithin_all[OF g allWithin_mono[OF w(1) this]] show ?thesis .
  qed
  then have "optimal ls (newNodes rs')" by (rule optimal_allWithin)
  with r show ?thesis by blast
qed

section \<open>The link loop on fresh tables\<close>

lemma joins_sym: "joins l a b = joins l b a"
  by (auto simp: joins_def)

lemma joins_ends [simp]: "joins l (lfrom l) (lto l)" "joins l (lto l) (lfrom l)"
  by (auto simp: joins_def)

lemma joins_incident: "joins l a b = (incident l a \<and> other l a = b) \<or> lfrom l = lto l"
  by (auto simp: joins_def incident_def other_def)

lemma initLoop_nopause:
  assumes "pending rs = []"
    and "\<forall>l \<in> set ls'. lfrom l \<in> nid ` set (newNodes rs) \<and> lto l \<in> nid ` set (newNodes rs)"
  shows "\<exists>rs'. initLoop cl ls' rs = Inr rs' \<and> pending rs' = [] \<and>
           hasChanges rs' = hasChanges rs \<and>
           newNodes rs' = foldl (\<lambda>ns l. initLink l ns) (newNodes rs) ls'"
  using assms
proof (induction ls' arbitrary: rs)
  case Nil
  then show ?case by simp
next
  case (Cons l ls')
  let ?rs1 = "publish cl (setStatus (SettingUp (lfrom l) (lto l))
                     (rs\<lparr>newNodes := initLink l (newNodes rs)\<rparr>))"
  have found: "findNode (lfrom l) (newNodes rs) \<noteq> None" "findNode (lto l) (newNodes rs) \<noteq> None"
    using Cons.prems(2) by (simp_all add: findNode_None)
  have same: "nid ` set (newNodes ?rs1) = nid ` set (newNodes rs)"
  proof -
    have "map nid (newNodes ?rs1) = map nid (newNodes rs)" by simp
    then show ?thesis by (metis set_map)
  qed
  have "pending ?rs1 = []" using Cons.prems(1) by simp
  moreover have "\<forall>k \<in> set ls'. lfrom k \<in> nid ` set (newNodes ?rs1) \<and> lto k \<in> nid ` set (newNodes ?rs1)"
    using Cons.prems(2) unfolding same by simp
  ultimately obtain rs' where r: "initLoop cl ls' ?rs1 = Inr rs'" "pending rs' = []"
    "hasChanges rs' = hasChanges ?rs1"
    "newNodes rs' = foldl (\<lambda>ns l. initLink l ns) (newNodes ?rs1) ls'"
    using Cons.IH[of ?rs1] by blast
  have "initLoop cl (l # ls') rs = initLoop cl ls' ?rs1"
    using found Cons.prems(1) by (simp add: observe_empty)
  with r show ?case by simp
qed

lemma set_nid_foldl_initLink [simp]:
  "map nid (foldl (\<lambda>ns l. initLink l ns) ns ls) = map nid ns"
  by (induction ls arbitrary: ns) auto

lemma entryAt_foldl_initLink:
  assumes "uniquePairs ls" and "\<forall>l \<in> set ls. lfrom l \<in> nid ` set ns \<and> lto l \<in> nid ` set ns"
    and "\<forall>l \<in> set ls. lfrom l \<noteq> lto l"
  shows "(\<forall>l \<in> set ls.
            entryAt (foldl (\<lambda>ns l. initLink l ns) ns ls) (lfrom l) (lto l) =
              Some (directEntry (weight l) (lto l)) \<and>
            entryAt (foldl (\<lambda>ns l. initLink l ns) ns ls) (lto l) (lfrom l) =
              Some (directEntry (weight l) (lfrom l))) \<and>
         (\<forall>a b. (\<forall>l \<in> set ls. \<not> joins l a b) \<longrightarrow>
            entryAt (foldl (\<lambda>ns l. initLink l ns) ns ls) a b = entryAt ns a b)"
  using assms
proof (induction ls arbitrary: ns)
  case Nil
  then show ?case by simp
next
  case (Cons l ls)
  let ?ns1 = "initLink l ns"
  let ?F = "foldl (\<lambda>ns l. initLink l ns) ?ns1 ls"
  have up: "uniquePairs ls" using Cons.prems(1) by (simp add: uniquePairs_def)
  have lin: "lfrom l \<in> nid ` set ns" "lto l \<in> nid ` set ns" and lne: "lfrom l \<noteq> lto l"
    using Cons.prems(2,3) by simp_all
  have sn: "nid ` set ?ns1 = nid ` set ns"
    using map_nid_initLink[of l ns] by (metis set_map)
  have e1: "\<forall>k \<in> set ls. lfrom k \<in> nid ` set ?ns1 \<and> lto k \<in> nid ` set ?ns1"
    using Cons.prems(2) unfolding sn by simp
  have e2: "\<forall>k \<in> set ls. lfrom k \<noteq> lto k" using Cons.prems(3) by simp
  note IH = Cons.IH[OF up e1 e2]
  have IH1: "entryAt ?F (lfrom k) (lto k) = Some (directEntry (weight k) (lto k)) \<and>
            entryAt ?F (lto k) (lfrom k) = Some (directEntry (weight k) (lfrom k))"
    if "k \<in> set ls" for k
    using IH[THEN conjunct1] that by (rule bspec)
  have IH2: "entryAt ?F a b = entryAt ?ns1 a b" if "\<forall>k \<in> set ls. \<not> joins k a b" for a b
    by (rule IH[THEN conjunct2, THEN spec, THEN spec, THEN mp, OF that])
  have E1: "\<And>a b. entryAt ?ns1 a b =
     (if a = lto l \<and> b = lfrom l then Some (directEntry (weight l) (lfrom l))
      else if a = lfrom l \<and> b = lto l then Some (directEntry (weight l) (lto l))
      else entryAt ns a b)"
    by (rule entryAt_initLink[OF lin])
  have head: "entryAt ?F (lfrom l) (lto l) = Some (directEntry (weight l) (lto l)) \<and>
              entryAt ?F (lto l) (lfrom l) = Some (directEntry (weight l) (lfrom l))"
  proof (cases "\<exists>k \<in> set ls. joins k (lfrom l) (lto l)")
    case True
    then obtain k where k: "k \<in> set ls" "joins k (lfrom l) (lto l)" by blast
    with Cons.prems(1) have "k = l" by (simp add: uniquePairs_def)
    with IH1[OF k(1)] show ?thesis by simp
  next
    case False
    then have f: "\<forall>k \<in> set ls. \<not> joins k (lfrom l) (lto l)"
      "\<forall>k \<in> set ls. \<not> joins k (lto l) (lfrom l)"
      using joins_sym by blast+
    have "entryAt ?ns1 (lfrom l) (lto l) = Some (directEntry (weight l) (lto l))"
      "entryAt ?ns1 (lto l) (lfrom l) = Some (directEntry (weight l) (lfrom l))"
      using lne by (simp_all add: E1)
    with IH2[OF f(1)] IH2[OF f(2)] show ?thesis by (simp only:)
  qed
  have rest: "entryAt ?F a b = entryAt ns a b" if "\<forall>k \<in> set (l # ls). \<not> joins k a b" for a b
  proof -
    from that have nj: "\<not> joins l a b" and "\<forall>k \<in> set ls. \<not> joins k a b" by simp_all
    from IH2[OF this(2)] have "entryAt ?F a b = entryAt ?ns1 a b" .
    also have "\<dots> = entryAt ns a b"
    proof -
      have "\<not> (a = lto l \<and> b = lfrom l)" "\<not> (a = lfrom l \<and> b = lto l)"
        using nj unfolding joins_def by blast+
      then show ?thesis by (simp only: E1 if_False)
    qed
    finally show ?thesis .
  qed
  have all: "entryAt ?F (lfrom k) (lto k) = Some (directEntry (weight k) (lto k)) \<and>
             entryAt ?F (lto k) (lfrom k) = Some (directEntry (weight k) (lfrom k))"
    if "k \<in> set (l # ls)" for k
  proof (cases "k = l")
    case True
    with head show ?thesis by blast
  next
    case False
    with that have "k \<in> set ls" by simp
    then show ?thesis by (rule IH1)
  qed
  have F: "foldl (\<lambda>ns l. initLink l ns) ns (l # ls) = ?F" by simp
  show ?case unfolding F
  proof (intro conjI ballI allI impI)
    fix k assume "k \<in> set (l # ls)"
    from all[OF this] show "entryAt ?F (lfrom k) (lto k) = Some (directEntry (weight k) (lto k))"
      "entryAt ?F (lto k) (lfrom k) = Some (directEntry (weight k) (lfrom k))" by simp_all
  next
    fix a b assume "\<forall>k \<in> set (l # ls). \<not> joins k a b"
    then show "entryAt ?F a b = entryAt ns a b" by (rule rest)
  qed
qed

text \<open>The tables after the link loop, on a fresh table: direct entries and blank ones.\<close>

lemma init_state:
  assumes g: "goodLinks ids ls" and u: "uniquePairs ls" and c: "complete ids ns" and f: "fresh ns"
  defines "ns1 \<equiv> foldl (\<lambda>ns l. initLink l ns) ns ls"
  shows "tablesOk ids ls ns1 \<and> allWithin ls ns1 1 \<and>
         (\<forall>a b e. entryAt ns1 a b = Some e \<longrightarrow>
            e = blankEntry \<or> (\<exists>l \<in> set ls. joins l a b \<and> e = directEntry (weight l) b))"
proof -
  from c have ids: "map nid ns = ids" by (simp add: complete_def)
  then have sids: "nid ` set ns = set ids" by (metis set_map)
  have ends: "\<forall>l \<in> set ls. lfrom l \<in> nid ` set ns \<and> lto l \<in> nid ` set ns"
    using g sids by (simp add: goodLinks_def)
  have nl: "\<forall>l \<in> set ls. lfrom l \<noteq> lto l" using g by (simp add: goodLinks_def)
  note F = entryAt_foldl_initLink[OF u ends nl, folded ns1_def]
  have D: "entryAt ns1 (lfrom l) (lto l) = Some (directEntry (weight l) (lto l)) \<and>
           entryAt ns1 (lto l) (lfrom l) = Some (directEntry (weight l) (lfrom l))"
    if "l \<in> set ls" for l
    using F[THEN conjunct1] that by (rule bspec)
  have R: "entryAt ns1 a b = entryAt ns a b" if "\<forall>l \<in> set ls. \<not> joins l a b" for a b
    by (rule F[THEN conjunct2, THEN spec, THEN spec, THEN mp, OF that])
  have J: "entryAt ns1 a b = Some (directEntry (weight l) b)" if "l \<in> set ls" "joins l a b" for l a b
    using D[OF that(1)] that(2) by (auto simp: joins_def)
  have shape: "e = blankEntry \<or> (\<exists>l \<in> set ls. joins l a b \<and> e = directEntry (weight l) b)"
    if "entryAt ns1 a b = Some e" for a b e
  proof (cases "\<exists>l \<in> set ls. joins l a b")
    case True
    then obtain l where "l \<in> set ls" "joins l a b" by blast
    with J[OF this] that show ?thesis by auto
  next
    case False
    with R[of a b] that f show ?thesis by (auto simp: fresh_def)
  qed
  have ji: "incident l a \<and> other l a = b" if "l \<in> set ls" "joins l a b" for l a b
    using that nl by (auto simp: joins_def incident_def other_def)
  have cp: "complete ids ns1"
    unfolding complete_def
  proof (intro conjI ballI)
    show "map nid ns1 = ids" using ids by (simp add: ns1_def)
    fix a b assume ab: "a \<in> set ids" "b \<in> set ids"
    show "(entryAt ns1 a b \<noteq> None) = (a \<noteq> b)"
    proof (cases "\<exists>l \<in> set ls. joins l a b")
      case True
      then obtain l where l: "l \<in> set ls" "joins l a b" by blast
      with nl have "a \<noteq> b" by (auto simp: joins_def)
      with J[OF l] show ?thesis by simp
    next
      case False
      with R[of a b] c ab show ?thesis by (simp add: complete_def)
    qed
  qed
  have so: "sound ls ns1"
    unfolding sound_def
  proof (intro allI impI)
    fix a b e assume e: "entryAt ns1 a b = Some e"
    from shape[OF e] show
      "((distance e = INFINITY \<and> nextHop e = ''-'') \<or> (\<exists>p. p \<noteq> [] \<and> walk ls a p b)) \<and>
       (distance e < INFINITY \<longrightarrow> (\<exists>p. p \<noteq> [] \<and> walk ls a p b \<and> walkWeight p = distance e))"
    proof
      assume "e = blankEntry"
      then show ?thesis by (simp add: blankEntry_def)
    next
      assume "\<exists>l \<in> set ls. joins l a b \<and> e = directEntry (weight l) b"
      then obtain l where l: "l \<in> set ls" "joins l a b" "e = directEntry (weight l) b" by blast
      from ji[OF l(1,2)] l(1) have "[l] \<noteq> [] \<and> walk ls a [l] b \<and> walkWeight [l] = weight l"
        by simp
      moreover have "distance e = weight l" using l(3) by (simp add: directEntry_def)
      ultimately have "\<exists>p. p \<noteq> [] \<and> walk ls a p b \<and> walkWeight p = distance e"
        by (intro exI[of _ "[l]"]) simp
      then show ?thesis by blast
    qed
  qed
  have ho: "hopOk ls ns1"
    unfolding hopOk_def
  proof (intro allI impI)
    fix a b e assume e: "entryAt ns1 a b = Some e \<and> distance e < INFINITY"
    with shape[of a b e] obtain l where l: "l \<in> set ls" "joins l a b"
      "e = directEntry (weight l) b"
      by (auto simp: blankEntry_def)
    from ji[OF l(1,2)] l(3) have "incident l a \<and> other l a = nextHop e \<and>
        leg ns1 (nextHop e) b = Some 0 \<and> weight l + 0 \<le> distance e"
      by (simp add: directEntry_def leg_def)
    with l(1) show "\<exists>l \<in> set ls. \<exists>x. incident l a \<and> other l a = nextHop e \<and>
        leg ns1 (nextHop e) b = Some x \<and> weight l + x \<le> distance e" by blast
  qed
  have one: "allWithin ls ns1 1"
    unfolding allWithin_def within_def
  proof (intro allI impI)
    fix a b :: string and p
    assume ne: "a \<noteq> b" and p: "walk ls a p b \<and> length p \<le> 1 \<and> walkWeight p < INFINITY"
    with ne obtain l where pl: "p = [l]" by (cases p) auto
    with p have l: "l \<in> set ls" "incident l a" "other l a = b" by auto
    then have "joins l a b" by (auto simp: joins_def incident_def other_def)
    from J[OF l(1) this] pl
    show "\<exists>e. entryAt ns1 a b = Some e \<and> distance e \<le> walkWeight p"
      by (simp add: directEntry_def)
  qed
  from cp so ho one shape show ?thesis unfolding tablesOk_def by blast
qed

section \<open>Runs that are paused and resumed\<close>

lemma relaxPairs_run_rule:
  assumes "relaxPairs ls ps rs = Inr rs'" and "Q rs"
    and ob: "\<And>rs p rs1. Q rs \<Longrightarrow> observe rs = (p, rs1) \<Longrightarrow> Q rs1"
    and pa: "\<And>rs. Q rs \<Longrightarrow> Q (setStatus SimulationPaused rs)"
    and un: "\<And>rs n d rs'. Q rs \<Longrightarrow> relaxUnit ls n d rs = Inr rs' \<Longrightarrow> Q rs'"
  shows "Q rs'"
  using assms(1,2)
proof (induction ps arbitrary: rs)
  case Nil
  then show ?case by simp
next
  case (Cons x ps)
  obtain n d where x: "x = (n, d)" by (cases x)
  obtain p rs1 where o: "observe rs = (p, rs1)" by (cases "observe rs")
  have q1: "Q rs1" by (rule ob[OF Cons.prems(2) o])
  show ?case
  proof (cases p)
    case NotPaused
    show ?thesis
    proof (cases "n = d")
      case True
      with Cons.prems NotPaused o x have "relaxPairs ls ps rs1 = Inr rs'" by simp
      from Cons.IH[OF this q1] show ?thesis .
    next
      case False
      with Cons.prems NotPaused o x obtain rs2 where
        u: "relaxUnit ls n d rs1 = Inr rs2" and r: "relaxPairs ls ps rs2 = Inr rs'"
        by (auto split: sum.splits)
      from Cons.IH[OF r un[OF q1 u]] show ?thesis .
    qed
  next
    case PausedThenResumed
    with Cons.prems o x have "relaxPairs ls ps (setStatus SimulationPaused rs1) = Inr rs'" by simp
    from Cons.IH[OF this pa[OF q1]] show ?thesis .
  next
    case PausedForever
    with Cons.prems o x show ?thesis by simp
  qed
qed

lemma synced_observe: "synced ls rs \<Longrightarrow> observe rs = (p, rs1) \<Longrightarrow> synced ls rs1"
  by (auto simp: synced_def observe_def split: list.splits)

lemma synced_setStatus: "synced ls rs \<Longrightarrow> synced ls (setStatus m rs)"
  by (simp add: synced_def setStatus_def)

lemma synced_relaxUnit: "relaxUnit ls n d rs = Inr rs' \<Longrightarrow> synced ls rs'"
  by (auto simp: relaxUnit_def synced_def publish_def setStatus_def split: sum.splits)

lemma synced_relaxPairs:
  assumes "relaxPairs ls ps rs = Inr rs'" "synced ls rs"
  shows "synced ls rs'"
  by (rule relaxPairs_run_rule[where Q = "synced ls", OF assms])
    (auto intro: synced_observe synced_setStatus synced_relaxUnit)

lemma synced_startPass: "synced ls rs \<Longrightarrow> synced ls (startPass p mp rs)"
  by (simp add: synced_def startPass_def)

lemma synced_relaxLoop:
  assumes "relaxLoop ls ids mp p rs = Inr (p', rs')" "synced ls rs"
  shows "synced ls rs'"
  using assms
proof (induction ls ids mp p rs rule: relaxLoop.induct)
  case (1 ls ids mp p rs)
  show ?case
  proof (cases "hasChanges rs \<and> p \<le> mp")
    case False
    with "1.prems" show ?thesis by (simp add: relaxLoop.simps)
  next
    case True
    with "1.prems"(1) obtain rs1 where
      a: "relaxPairs ls (List.product ids ids) (startPass p mp rs) = Inr rs1" and
      b: "relaxLoop ls ids mp (p + 1) rs1 = Inr (p', rs')"
      by (subst (asm) relaxLoop.simps) (auto split: sum.splits)
    from synced_relaxPairs[OF a synced_startPass[OF "1.prems"(2)]] have "synced ls rs1" .
    from "1.IH"[OF True a b this] show ?thesis .
  qed
qed

text \<open>Runs that may be paused and resumed: they return, on tables that have their entries.\<close>

lemma hasEntries_relaxStep:
  assumes l: "linksIn ids ls" and h: "hasEntries ids ns"
    and nd: "n \<in> set ids" "d \<in> set ids" "n \<noteq> d"
  shows "\<exists>ns' c'. relaxStep ls n d c ns = Inr (ns', c') \<and> hasEntries ids ns'"
proof -
  from h have ids: "map nid ns = ids" by (simp add: hasEntries_def)
  then have sids: "nid ` set ns = set ids" by (metis set_map)
  from h nd obtain e where e: "entryAt ns n d = Some e" by (auto simp: hasEntries_def)
  have "\<forall>k \<in> set ls. incident k n \<longrightarrow> other k n \<in> nid ` set ns"
    using l sids by (auto simp: linksIn_def other_def)
  from relaxStep_total[OF e this, of c] obtain ns' c' where
    r: "relaxStep ls n d c ns = Inr (ns', c')" by (metis surj_pair)
  have E': "entryAt ns' a b \<noteq> None" if "entryAt ns a b \<noteq> None" for a b
    using relaxStep_char[OF r] that by auto
  have ids': "map nid ns' = ids" using relaxStep_char[OF r] ids by auto
  have "hasEntries ids ns'"
    unfolding hasEntries_def
  proof (intro conjI ballI impI)
    show "map nid ns' = ids" by (rule ids')
    fix a b assume "a \<in> set ids" "b \<in> set ids" "a \<noteq> b"
    with h have "entryAt ns a b \<noteq> None" by (simp add: hasEntries_def)
    then show "entryAt ns' a b \<noteq> None" by (rule E')
  qed
  with r show ?thesis by blast
qed

lemma hasEntries_initLink:
  assumes "hasEntries ids ns"
  shows "hasEntries ids (initLink l ns)"
proof (cases "lfrom l \<in> nid ` set ns \<and> lto l \<in> nid ` set ns")
  case True
  then have E: "\<And>a b. entryAt ns a b \<noteq> None \<Longrightarrow> entryAt (initLink l ns) a b \<noteq> None"
    by (simp add: entryAt_initLink)
  show ?thesis
    unfolding hasEntries_def
  proof (intro conjI ballI impI)
    show "map nid (initLink l ns) = ids" using assms by (simp add: hasEntries_def)
    fix a b assume "a \<in> set ids" "b \<in> set ids" "a \<noteq> b"
    with assms have "entryAt ns a b \<noteq> None" by (simp add: hasEntries_def)
    then show "entryAt (initLink l ns) a b \<noteq> None" by (rule E)
  qed
next
  case False
  then have "findNode (lfrom l) ns = None \<or> findNode (lto l) ns = None"
    by (simp add: findNode_None)
  then have "initLink l ns = ns" by (auto simp: initLink_def split: option.splits)
  with assms show ?thesis by simp
qed

lemma initLoop_total:
  assumes "PausedForever \<notin> set (pending rs)" and "hasEntries ids (newNodes rs)"
  shows "\<exists>rs'. initLoop cl ls rs = Inr rs' \<and> PausedForever \<notin> set (pending rs') \<and>
           hasEntries ids (newNodes rs')"
  using assms
proof (induction ls arbitrary: rs)
  case Nil
  then show ?case by simp
next
  case (Cons l ls)
  obtain p rs1 where o: "observe rs = (p, rs1)" by (cases "observe rs")
  from observe_cases[OF o] Cons.prems have
    1: "PausedForever \<notin> set (pending rs1)" "hasEntries ids (newNodes rs1)"
      "p \<noteq> PausedForever"
    by auto
  show ?case
  proof (cases p)
    case NotPaused
    let ?rs2 = "publish cl (setStatus (SettingUp (lfrom l) (lto l))
                     (rs1\<lparr>newNodes := initLink l (newNodes rs1)\<rparr>))"
    have "PausedForever \<notin> set (pending ?rs2)" "hasEntries ids (newNodes ?rs2)"
      using 1 hasEntries_initLink by simp_all
    from Cons.IH[OF this] Cons.IH[OF 1(1,2)] o NotPaused show ?thesis by simp
  next
    case PausedThenResumed
    have "PausedForever \<notin> set (pending (setStatus SimulationPaused rs1))"
      "hasEntries ids (newNodes (setStatus SimulationPaused rs1))"
      using 1 by simp_all
    from Cons.IH[OF this] o PausedThenResumed show ?thesis by simp
  next
    case PausedForever
    with 1 show ?thesis by simp
  qed
qed

lemma relaxPairs_total:
  assumes l: "linksIn ids ls" and "set ps \<subseteq> set ids \<times> set ids"
    and "PausedForever \<notin> set (pending rs)" and "hasEntries ids (newNodes rs)"
  shows "\<exists>rs'. relaxPairs ls ps rs = Inr rs' \<and> PausedForever \<notin> set (pending rs') \<and>
           hasEntries ids (newNodes rs')"
  using assms(2-)
proof (induction ps arbitrary: rs)
  case Nil
  then show ?case by simp
next
  case (Cons x ps)
  obtain n d where x: "x = (n, d)" by (cases x)
  with Cons.prems(1) have nd: "n \<in> set ids" "d \<in> set ids" and sub: "set ps \<subseteq> set ids \<times> set ids"
    by auto
  obtain p rs1 where o: "observe rs = (p, rs1)" by (cases "observe rs")
  from observe_cases[OF o] Cons.prems have
    1: "PausedForever \<notin> set (pending rs1)" "hasEntries ids (newNodes rs1)"
      "p \<noteq> PausedForever"
    by auto
  show ?case
  proof (cases p)
    case NotPaused
    show ?thesis
    proof (cases "n = d")
      case True
      from Cons.IH[OF sub 1(1,2)] o NotPaused x True show ?thesis by simp
    next
      case False
      from hasEntries_relaxStep[OF l 1(2) nd False, of "hasChanges rs1"] obtain ns' c' where
        r: "relaxStep ls n d (hasChanges rs1) (newNodes rs1) = Inr (ns', c')"
        and h: "hasEntries ids ns'" by blast
      from relaxUnit_Inr[OF r] obtain rs2 where rs2: "relaxUnit ls n d rs1 = Inr rs2"
        "newNodes rs2 = ns'" "pending rs2 = pending rs1" by blast
      have "PausedForever \<notin> set (pending rs2)" "hasEntries ids (newNodes rs2)"
        using rs2 1 h by simp_all
      from Cons.IH[OF sub this] rs2(1) o NotPaused x False show ?thesis by simp
    qed
  next
    case PausedThenResumed
    have "PausedForever \<notin> set (pending (setStatus SimulationPaused rs1))"
      "hasEntries ids (newNodes (setStatus SimulationPaused rs1))"
      using 1 by simp_all
    from Cons.IH[OF sub this] o PausedThenResumed x show ?thesis by simp
  next
    case PausedForever
    with 1 show ?thesis by simp
  qed
qed

lemma relaxLoop_total:
  assumes "linksIn ids ls" and "PausedForever \<notin> set (pending rs)"
    and "hasEntries ids (newNodes rs)"
  shows "\<exists>p' rs'. relaxLoop ls ids mp p rs = Inr (p', rs')"
  using assms
proof (induction ls ids mp p rs rule: relaxLoop.induct)
  case (1 ls ids mp p rs)
  show ?case
  proof (cases "hasChanges rs \<and> p \<le> mp")
    case False
    have "relaxLoop ls ids mp p rs = Inr (p, rs)"
      by (subst relaxLoop.simps) (simp only: False if_False)
    then show ?thesis by blast
  next
    case True
    have "set (List.product ids ids) \<subseteq> set ids \<times> set ids" by simp
    from relaxPairs_total[OF "1.prems"(1) this, of "startPass p mp rs"] "1.prems"(2,3)
    obtain rs1 where a: "relaxPairs ls (List.product ids ids) (startPass p mp rs) = Inr rs1"
      "PausedForever \<notin> set (pending rs1)" "hasEntries ids (newNodes rs1)"
      by auto
    from "1.IH"[OF True a(1) "1.prems"(1) a(2,3)] obtain p' rs' where
      "relaxLoop ls ids mp (p + 1) rs1 = Inr (p', rs')" by blast
    with True a(1) show ?thesis by (subst relaxLoop.simps) simp
  qed
qed

section \<open>A whole run on a new session\<close>

lemma setup_linksIn:
  assumes "newLinks N m = Inr ls" "squareMatrix N m"
  shows "linksIn (nodeIds N) ls"
  unfolding linksIn_def
proof
  fix l assume "l \<in> set ls"
  with newLinks_mem[OF assms] obtain i j where "j < i" "i < N" "l = mkLink m i j" by blast
  then show "lfrom l \<in> set (nodeIds N) \<and> lto l \<in> set (nodeIds N)"
    by (simp add: mkLink_def nodeIds_def)
qed

lemma setup_goodLinks:
  assumes "newLinks N m = Inr ls" "squareMatrix N m" "N \<le> 191" "positiveWeights N m"
  shows "goodLinks (nodeIds N) ls"
  unfolding goodLinks_def
proof
  fix l assume "l \<in> set ls"
  with newLinks_mem[OF assms(1,2)] obtain i j where ij: "j < i" "i < N" "l = mkLink m i j"
    by blast
  with assms(3) have "nodeId j \<noteq> nodeId i" by (simp add: nodeId_eq_iff)
  moreover from ij assms(4) have "0 < m ! i ! j" by (simp add: positiveWeights_def)
  ultimately show "lfrom l \<in> set (nodeIds N) \<and> lto l \<in> set (nodeIds N) \<and>
      lfrom l \<noteq> lto l \<and> 0 < weight l"
    using ij by (simp add: mkLink_def nodeIds_def)
qed

lemma setup_complete: "complete (nodeIds N) (newNodesOf N)"
  unfolding complete_def nodeIds_def
  by (simp add: nid_newNodesOf entryAt_newNodesOf)

lemma setup_fresh: "fresh (newNodesOf N)"
  unfolding fresh_def by (simp add: entryAt_newNodesOf split: if_splits)

lemma setup_hasEntries: "hasEntries (nodeIds N) (newNodesOf N)"
  using setup_complete[of N] by (simp add: hasEntries_def complete_def)

lemma initLoop_links:
  "initLoop cl ls rs = Inr rs' \<Longrightarrow> links (store rs) = cl \<Longrightarrow> links (store rs') = cl"
proof (induction ls arbitrary: rs)
  case Nil
  then show ?case by simp
next
  case (Cons l ls)
  obtain p rs1 where o: "observe rs = (p, rs1)" by (cases "observe rs")
  from observe_cases[OF o] Cons.prems(2) have 1: "links (store rs1) = cl" by simp
  show ?case
  proof (cases p)
    case NotPaused
    show ?thesis
    proof (cases "findNode (lfrom l) (newNodes rs1) \<noteq> None \<and> findNode (lto l) (newNodes rs1) \<noteq> None")
      case True
      let ?rs2 = "publish cl (setStatus (SettingUp (lfrom l) (lto l))
                     (rs1\<lparr>newNodes := initLink l (newNodes rs1)\<rparr>))"
      from Cons.prems(1) o NotPaused True have "initLoop cl ls ?rs2 = Inr rs'" by simp
      moreover have "links (store ?rs2) = cl" by (simp add: publish_def)
      ultimately show ?thesis by (rule Cons.IH)
    next
      case False
      with Cons.prems(1) o NotPaused have "initLoop cl ls rs1 = Inr rs'" by auto
      then show ?thesis using 1 by (rule Cons.IH)
    qed
  next
    case PausedThenResumed
    with Cons.prems(1) o have "initLoop cl ls (setStatus SimulationPaused rs1) = Inr rs'" by simp
    moreover have "links (store (setStatus SimulationPaused rs1)) = cl"
      using 1 by (simp add: setStatus_def)
    ultimately show ?thesis by (rule Cons.IH)
  next
    case PausedForever
    with Cons.prems(1) o show ?thesis by simp
  qed
qed

text \<open>A run that is never paused, on fresh tables.\<close>

lemma run_converges:
  assumes g: "goodLinks ids (links s)" and u: "uniquePairs (links s)"
    and c: "complete ids (nodes s)" and f: "fresh (nodes s)" and np: "\<not> session.isProcessing s"
  shows "\<exists>s'. updateRoutingTables [] s s = Inr s' \<and> links s' = links s \<and>
           tablesOk ids (links s) (nodes s') \<and> optimal (links s) (nodes s') \<and>
           lowers (foldl (\<lambda>ns l. initLink l ns) (nodes s) (links s)) (nodes s') \<and>
           (\<forall>a b e. entryAt (foldl (\<lambda>ns l. initLink l ns) (nodes s) (links s)) a b = Some e \<longrightarrow>
              e = blankEntry \<or> (\<exists>l \<in> set (links s). joins l a b \<and> e = directEntry (weight l) b))"
proof -
  let ?ls = "links s"
  let ?rs0 = "beginRun [] s s"
  let ?ns1 = "foldl (\<lambda>ns l. initLink l ns) (nodes s) ?ls"
  from c have ids: "map nid (nodes s) = ids" by (simp add: complete_def)
  then have sids: "nid ` set (nodes s) = set ids" by (metis set_map)
  have ends: "\<forall>l \<in> set ?ls. lfrom l \<in> nid ` set (newNodes ?rs0) \<and> lto l \<in> nid ` set (newNodes ?rs0)"
    using g sids by (simp add: goodLinks_def beginRun_def)
  have "pending ?rs0 = []" by (simp add: beginRun_def)
  from initLoop_nopause[where cl = ?ls, OF this ends] obtain rs1 where
    i1: "initLoop ?ls ?ls ?rs0 = Inr rs1" "pending rs1 = []" "newNodes rs1 = ?ns1"
    by (auto simp: beginRun_def)
  have l1: "links (store rs1) = ?ls"
    by (rule initLoop_links[OF i1(1)]) (simp add: beginRun_def)
  let ?rs2 = "(publishNodes rs1)\<lparr>hasChanges := True\<rparr>"
  from init_state[OF g u c f] have st: "tablesOk ids ?ls ?ns1" "allWithin ?ls ?ns1 1"
    and shape: "\<forall>a b e. entryAt ?ns1 a b = Some e \<longrightarrow>
            e = blankEntry \<or> (\<exists>l \<in> set ?ls. joins l a b \<and> e = directEntry (weight l) b)"
    by blast+
  have p2: "pending ?rs2 = []" "newNodes ?rs2 = ?ns1" "hasChanges ?rs2"
    using i1 by (simp_all add: publishNodes_def)
  have sy: "synced ?ls ?rs2" using l1 by (simp add: synced_def publishNodes_def)
  have len: "length ids = length (nodes s)" using ids by (metis length_map)
  from relaxLoop_optimal[OF g p2(1)] st p2
  obtain p' rs' where r: "relaxLoop ?ls ids (int (length ids) - 1) 1 ?rs2 = Inr (p', rs')"
    "tablesOk ids ?ls (newNodes rs')" "lowers (newNodes ?rs2) (newNodes rs')" "optimal ?ls (newNodes rs')"
    by auto
  from synced_relaxLoop[OF r(1) sy] have sy': "nodes (store rs') = newNodes rs'"
    "links (store rs') = ?ls" by (simp_all add: synced_def)
  let ?s' = "finishRun rs'"
  have "relaxation s rs1 = Inr (p', rs')"
    using r(1) unfolding relaxation_def ids len[symmetric] by simp
  with np i1(1) have "updateRoutingTables [] s s = Inr ?s'"
    by (simp add: updateRoutingTables_def)
  moreover have "links ?s' = ?ls" "nodes ?s' = newNodes rs'"
    using sy' by (simp_all add: finishRun_def)
  ultimately show ?thesis using r(2,3,4) p2(2) shape by (intro exI[of _ ?s']) simp
qed

section \<open>The scenario, evaluated\<close>

lemma scenario_setup:
  "handleSetupComplete 3 (scenarioMatrix 2) initialSession = Inr (scenarioStart 2)"
  by code_simp

lemma scenario_first_run:
  "map_sum id clearNew (startEffect [] (scenarioStart 2)) = Inr scenarioConverged"
  by code_simp

lemma scenario_click: "handleLinkClick linkAB scenarioConverged = scenarioSelected"
  by code_simp

section \<open>Shortest paths\<close>

lemma handleSetupComplete_Inr:
  assumes "handleSetupComplete N m s0 = Inr s"
  shows "\<exists>ls. newLinks N m = Inr ls \<and> nodes s = newNodesOf N \<and> links s = ls \<and>
           \<not> isSetup s \<and> session.isProcessing s = session.isProcessing s0"
  using assms by (auto simp: handleSetupComplete_def split: sum.splits)

lemma setup_run:
  assumes sq: "squareMatrix N m" and n: "N \<le> 8" and pw: "positiveWeights N m"
    and hs: "handleSetupComplete N m s0 = Inr s" and np: "\<not> session.isProcessing s0"
  shows "\<exists>s'. startEffect [] s = Inr s' \<and> links s' = links s \<and>
           tablesOk (nodeIds N) (links s) (nodes s') \<and> optimal (links s) (nodes s') \<and>
           goodLinks (nodeIds N) (links s) \<and>
           lowers (foldl (\<lambda>ns l. initLink l ns) (nodes s) (links s)) (nodes s') \<and>
           (\<forall>a b e. entryAt (foldl (\<lambda>ns l. initLink l ns) (nodes s) (links s)) a b = Some e \<longrightarrow>
              e = blankEntry \<or> (\<exists>l \<in> set (links s). joins l a b \<and> e = directEntry (weight l) b))"
proof -
  from handleSetupComplete_Inr[OF hs] np obtain ls where
    ls: "newLinks N m = Inr ls" and s: "nodes s = newNodesOf N" "links s = ls" "\<not> isSetup s"
      "\<not> session.isProcessing s"
    by auto
  from n have n': "N \<le> 191" by simp
  have g: "goodLinks (nodeIds N) (links s)"
    using setup_goodLinks[OF ls sq n' pw] s by simp
  have u: "uniquePairs (links s)" using newLinks_uniquePairs[OF ls sq n'] s by simp
  have c: "complete (nodeIds N) (nodes s)" using setup_complete[of N] s by simp
  have f: "fresh (nodes s)" using setup_fresh[of N] s by simp
  from run_converges[OF g u c f s(4)] s(3,4) g show ?thesis
    by (simp add: startEffect_def)
qed

text \<open>What the invariants say about one pair that a walk lighter than \<open>INFINITY\<close> joins.\<close>

lemma optimal_entry:
  assumes g: "goodLinks ids ls" and ok: "tablesOk ids ls ns" and op: "optimal ls ns"
    and ne: "n \<noteq> d" and w: "walk ls n p d" and lt: "walkWeight p < INFINITY"
  shows "\<exists>e. entryAt ns n d = Some e \<and>
           (\<exists>q. walk ls n q d \<and> walkWeight q = distance e) \<and>
           (\<forall>q. walk ls n q d \<longrightarrow> distance e \<le> walkWeight q) \<and>
           (\<exists>l \<in> set ls. \<exists>x. incident l n \<and> other l n = nextHop e \<and>
              leg ns (nextHop e) d = Some x \<and> distance e = weight l + x)"
proof -
  from ok have cp: "complete ids ns" and so: "sound ls ns" and ho: "hopOk ls ns"
    by (simp_all add: tablesOk_def)
  from op ne w lt obtain e where e: "entryAt ns n d = Some e" "distance e \<le> walkWeight p"
    unfolding optimal_def by blast
  with lt have fin: "distance e < INFINITY" by simp
  from so e(1) fin obtain q where q: "q \<noteq> []" "walk ls n q d" "walkWeight q = distance e"
    unfolding sound_def by blast
  have least: "distance e \<le> walkWeight r" if r: "walk ls n r d" for r
  proof (cases "walkWeight r < INFINITY")
    case True
    with op ne r obtain e' where "entryAt ns n d = Some e'" "distance e' \<le> walkWeight r"
      unfolding optimal_def by blast
    with e(1) show ?thesis by simp
  next
    case False
    with fin show ?thesis by simp
  qed
  from ho e(1) fin obtain l x where l: "l \<in> set ls" "incident l n" "other l n = nextHop e"
    "leg ns (nextHop e) d = Some x" "weight l + x \<le> distance e"
    unfolding hopOk_def by blast
  have wl: "0 < weight l" using g l(1) by (simp add: goodLinks_def)
  have "distance e \<le> weight l + x"
  proof (cases "nextHop e = d")
    case True
    with l(4) have x: "x = 0" by (simp add: leg_def)
    have "walk ls n [l] d" using l(1,2,3) True by simp
    from least[OF this] x show ?thesis by simp
  next
    case False
    with l(4) obtain e' where e': "entryAt ns (nextHop e) d = Some e'" "x = distance e'"
      by (auto simp: leg_def)
    from l(5) wl fin e'(2) have "distance e' < INFINITY" by simp
    with so e'(1) obtain r where r: "walk ls (nextHop e) r d" "walkWeight r = distance e'"
      unfolding sound_def by blast
    have "walk ls n (l # r) d" using l(1,2,3) r(1) by simp
    from least[OF this] r(2) e'(2) show ?thesis by simp
  qed
  with l(5) have "distance e = weight l + x" by simp
  with e(1) q least l show ?thesis by blast
qed

lemma scenario_tables:
  "finalTables (startEffect [] (scenarioStart 2)) =
     Inr [(''A'', [(''B'', 2, ''B''), (''C'', 5, ''B'')]),
          (''B'', [(''A'', 2, ''A''), (''C'', 3, ''C'')]),
          (''C'', [(''A'', 5, ''B''), (''B'', 3, ''B'')])]"
  by code_simp

text \<open>
  Claim C1, for the pairs that a path lighter than the sentinel joins. On a session built
  by \<open>handleSetupComplete\<close> from a matrix of 2 to 8 nodes with positive weights, the run
  that is never paused returns, and for every node \<open>n\<close> and destination \<open>d\<close> joined by a
  walk of weight below \<open>INFINITY\<close> the entry of \<open>n\<close> for \<open>d\<close> holds the weight of a
  walk from \<open>n\<close> to \<open>d\<close>, no walk from \<open>n\<close> to \<open>d\<close> weighs less, and its next hop is
  the other end of a link at \<open>n\<close> whose weight plus the next hop's own distance to \<open>d\<close>
  (0 when the next hop is \<open>d\<close>) is the entry's distance. The scenario of the
  specification ends with A to B 2 via B, A to C 5 via B, B to C 3 via C, C to A 5 via B.
\<close>

theorem converged_distances_shortest:
  assumes "squareMatrix N m" and "2 \<le> N" and "N \<le> 8" and "positiveWeights N m"
    and "handleSetupComplete N m s0 = Inr s" and "\<not> session.isProcessing s0"
  shows "(\<exists>s'. startEffect [] s = Inr s' \<and>
           (\<forall>n d p. n \<noteq> d \<and> walk (links s) n p d \<and> walkWeight p < INFINITY \<longrightarrow>
              (\<exists>e. entryAt (nodes s') n d = Some e \<and>
                 (\<exists>q. walk (links s) n q d \<and> walkWeight q = distance e) \<and>
                 (\<forall>q. walk (links s) n q d \<longrightarrow> distance e \<le> walkWeight q) \<and>
                 (\<exists>l \<in> set (links s). \<exists>x. incident l n \<and> other l n = nextHop e \<and>
                    leg (nodes s') (nextHop e) d = Some x \<and> distance e = weight l + x)))) \<and>
         handleSetupComplete 3 (scenarioMatrix 2) initialSession = Inr (scenarioStart 2) \<and>
         finalTables (startEffect [] (scenarioStart 2)) =
           Inr [(''A'', [(''B'', 2, ''B''), (''C'', 5, ''B'')]),
                (''B'', [(''A'', 2, ''A''), (''C'', 3, ''C'')]),
                (''C'', [(''A'', 5, ''B''), (''B'', 3, ''B'')])]"
proof (intro conjI)
  from setup_run[OF assms(1,3,4,5,6)] obtain s' where
    r: "startEffect [] s = Inr s'" and ok: "tablesOk (nodeIds N) (links s) (nodes s')"
    and op: "optimal (links s) (nodes s')" and g: "goodLinks (nodeIds N) (links s)"
    by blast
  show "\<exists>s'. startEffect [] s = Inr s' \<and>
           (\<forall>n d p. n \<noteq> d \<and> walk (links s) n p d \<and> walkWeight p < INFINITY \<longrightarrow>
              (\<exists>e. entryAt (nodes s') n d = Some e \<and>
                 (\<exists>q. walk (links s) n q d \<and> walkWeight q = distance e) \<and>
                 (\<forall>q. walk (links s) n q d \<longrightarrow> distance e \<le> walkWeight q) \<and>
                 (\<exists>l \<in> set (links s). \<exists>x. incident l n \<and> other l n = nextHop e \<and>
                    leg (nodes s') (nextHop e) d = Some x \<and> distance e = weight l + x)))"
  proof (intro exI[of _ s'] conjI allI impI)
    show "startEffect [] s = Inr s'" by (rule r)
    fix n d p
    assume "n \<noteq> d \<and> walk (links s) n p d \<and> walkWeight p < INFINITY"
    then show "\<exists>e. entryAt (nodes s') n d = Some e \<and>
                 (\<exists>q. walk (links s) n q d \<and> walkWeight q = distance e) \<and>
                 (\<forall>q. walk (links s) n q d \<longrightarrow> distance e \<le> walkWeight q) \<and>
                 (\<exists>l \<in> set (links s). \<exists>x. incident l n \<and> other l n = nextHop e \<and>
                    leg (nodes s') (nextHop e) d = Some x \<and> distance e = weight l + x)"
      using optimal_entry[OF g ok op] by blast
  qed
  show "handleSetupComplete 3 (scenarioMatrix 2) initialSession = Inr (scenarioStart 2)"
    by (rule scenario_setup)
  show "finalTables (startEffect [] (scenarioStart 2)) =
           Inr [(''A'', [(''B'', 2, ''B''), (''C'', 5, ''B'')]),
                (''B'', [(''A'', 2, ''A''), (''C'', 3, ''C'')]),
                (''C'', [(''A'', 5, ''B''), (''B'', 3, ''B'')])]"
    by (rule scenario_tables)
qed

lemma scenario_valid:
  "squareMatrix 3 (scenarioMatrix 2)" "positiveWeights 3 (scenarioMatrix 2)"
  by (simp_all add: squareMatrix_def positiveWeights_def scenarioMatrix_def INFINITY_def
      less_Suc_eq numeral_3_eq_3)

text \<open>
  The scenario satisfies the hypotheses of C1; from A, the walk over both links reaches
  C, and the entry of A for C is at most the weight of every walk from A to C.
\<close>

theorem converged_distances_shortest_witness:
  "squareMatrix 3 (scenarioMatrix 2) \<and> positiveWeights 3 (scenarioMatrix 2) \<and>
   handleSetupComplete 3 (scenarioMatrix 2) initialSession = Inr (scenarioStart 2) \<and>
   \<not> session.isProcessing initialSession \<and>
   walk (scenarioLinks 2) ''A'' (scenarioLinks 2) ''C'' \<and>
   (\<exists>s'. startEffect [] (scenarioStart 2) = Inr s' \<and>
      (\<exists>e. entryAt (nodes s') ''A'' ''C'' = Some e \<and>
         (\<forall>q. walk (scenarioLinks 2) ''A'' q ''C'' \<longrightarrow> distance e \<le> walkWeight q)))"
proof -
  have np: "\<not> session.isProcessing initialSession" by (simp add: initialSession_def)
  have w: "walk (scenarioLinks 2) ''A'' (scenarioLinks 2) ''C''"
    by (simp add: scenarioLinks_def incident_def other_def)
  have lt: "walkWeight (scenarioLinks 2) < INFINITY"
    by (simp add: scenarioLinks_def INFINITY_def)
  have ls: "links (scenarioStart 2) = scenarioLinks 2" by (simp add: scenarioStart_def)
  from converged_distances_shortest[OF scenario_valid(1) _ _ scenario_valid(2) scenario_setup np]
  obtain s' where s': "startEffect [] (scenarioStart 2) = Inr s'"
    "\<forall>n d p. n \<noteq> d \<and> walk (links (scenarioStart 2)) n p d \<and> walkWeight p < INFINITY \<longrightarrow>
        (\<exists>e. entryAt (nodes s') n d = Some e \<and>
           (\<exists>q. walk (links (scenarioStart 2)) n q d \<and> walkWeight q = distance e) \<and>
           (\<forall>q. walk (links (scenarioStart 2)) n q d \<longrightarrow> distance e \<le> walkWeight q) \<and>
           (\<exists>l \<in> set (links (scenarioStart 2)). \<exists>x. incident l n \<and> other l n = nextHop e \<and>
              leg (nodes s') (nextHop e) d = Some x \<and> distance e = weight l + x))"
    by auto
  from s'(2)[rule_format, of "''A''" "''C''" "scenarioLinks 2"] w lt ls
  have "\<exists>e. entryAt (nodes s') ''A'' ''C'' = Some e \<and>
         (\<forall>q. walk (scenarioLinks 2) ''A'' q ''C'' \<longrightarrow> distance e \<le> walkWeight q)"
    by auto
  with s'(1) scenario_valid scenario_setup np w show ?thesis by blast
qed

lemma long_setup: "handleSetupComplete 3 longMatrix initialSession = Inr longStart"
  by code_simp

text \<open>
  Claim C1 as stated fails: with both links at 600000, C is reachable from A, and the run
  ends with A to C at \<open>INFINITY\<close> and next hop \<open>-\<close>, which is no neighbour of A.
\<close>

theorem reachable_pair_left_unreachable:
  "squareMatrix 3 longMatrix \<and> positiveWeights 3 longMatrix \<and>
   handleSetupComplete 3 longMatrix initialSession = Inr longStart \<and>
   walk longLinks ''A'' longLinks ''C'' \<and>
   finalTables (startEffect [] longStart) =
     Inr [(''A'', [(''B'', 600000, ''B''), (''C'', 999999, ''-'')]),
          (''B'', [(''A'', 600000, ''A''), (''C'', 600000, ''C'')]),
          (''C'', [(''A'', 999999, ''-''), (''B'', 600000, ''B'')])] \<and>
   [l \<leftarrow> longLinks. incident l ''A'' \<and> other l ''A'' = ''-''] = []"
proof -
  have "squareMatrix 3 longMatrix" "positiveWeights 3 longMatrix"
    by (simp_all add: squareMatrix_def positiveWeights_def longMatrix_def INFINITY_def
        less_Suc_eq numeral_3_eq_3)
  moreover have "walk longLinks ''A'' longLinks ''C''"
    by (simp add: longLinks_def incident_def other_def)
  moreover have "finalTables (startEffect [] longStart) =
     Inr [(''A'', [(''B'', 600000, ''B''), (''C'', 999999, ''-'')]),
          (''B'', [(''A'', 600000, ''A''), (''C'', 600000, ''C'')]),
          (''C'', [(''A'', 999999, ''-''), (''B'', 600000, ''B'')])]"
    by code_simp
  moreover have "[l \<leftarrow> longLinks. incident l ''A'' \<and> other l ''A'' = ''-''] = []"
    by (simp add: longLinks_def incident_def other_def)
  ultimately show ?thesis using long_setup by blast
qed

section \<open>The sentinel\<close>

lemma bounded_relaxStep:
  assumes "bounded ns" "relaxStep ls n d c ns = Inr (ns', c')"
  shows "bounded ns'"
proof -
  from relaxStep_char[OF assms(2)] obtain e m' h' where
    e: "entryAt ns n d = Some e" and
    sc: "scanLinks n d ns ls (distance e, nextHop e, c) = Inr (m', h', c')" and
    E': "\<And>a b. entryAt ns' a b =
              (if a = n \<and> b = d
               then Some \<lparr>distance = m', nextHop = h', isNew = (m' \<noteq> distance e),
                          entry.isProcessing = False, calculated = True\<rparr>
               else entryAt ns a b)"
    by auto
  from scanLinks_bounds[OF sc] have "m' \<le> distance e" by simp
  moreover from assms(1) e have "distance e \<le> INFINITY" by (simp add: bounded_def)
  ultimately have "m' \<le> INFINITY" by simp
  with assms(1) show ?thesis by (auto simp: bounded_def E')
qed

lemma bounded_lowers:
  assumes "bounded ns" "lowers ns ns'" "complete ids ns" "complete ids ns'"
    and "\<forall>a b. entryAt ns' a b \<noteq> None \<longrightarrow> entryAt ns a b \<noteq> None"
  shows "bounded ns'"
  unfolding bounded_def
proof (intro allI impI)
  fix n d e' assume e': "entryAt ns' n d = Some e'"
  with assms(5) obtain e where e: "entryAt ns n d = Some e" by fastforce
  with assms(2) e' have "distance e' \<le> distance e" by (fastforce simp: lowers_def)
  moreover from assms(1) e have "distance e \<le> INFINITY" by (simp add: bounded_def)
  ultimately show "distance e' \<le> INFINITY" by simp
qed

text \<open>
  A candidate through a neighbour whose distance reads as \<open>INFINITY\<close> is not below a
  best distance of at most \<open>INFINITY\<close>: the scan passes over it.
\<close>

lemma sentinel_candidate_skipped:
  assumes "0 < weight l" and "m \<le> INFINITY" and "nd ns (other l n) d = INFINITY"
    and "incident l n \<longrightarrow> findNode (other l n) ns \<noteq> None"
  shows "scanLinks n d ns [l] (m, h, c) = Inr (m, h, c)"
  using assms by (auto simp: scanLinks_step cand_def)

lemma setup_weights_bounded:
  assumes "newLinks N m = Inr ls" "squareMatrix N m" "sentinelWeights N m"
  shows "\<forall>l \<in> set ls. weight l \<le> INFINITY"
proof
  fix l assume "l \<in> set ls"
  with newLinks_mem[OF assms(1,2)] obtain i j where "j < i" "i < N" "l = mkLink m i j" by blast
  with assms(3) show "weight l \<le> INFINITY" by (simp add: sentinelWeights_def mkLink_def)
qed

lemma bounded_fresh: "fresh ns \<Longrightarrow> bounded ns"
  unfolding fresh_def bounded_def by (fastforce simp: blankEntry_def)

lemma bounded_shape:
  assumes "\<forall>a b e. entryAt ns a b = Some e \<longrightarrow>
              e = blankEntry \<or> (\<exists>l \<in> set ls. joins l a b \<and> e = directEntry (weight l) b)"
    and "\<forall>l \<in> set ls. weight l \<le> INFINITY"
  shows "bounded ns"
  unfolding bounded_def
proof (intro allI impI)
  fix n d e assume "entryAt ns n d = Some e"
  with assms(1) have "e = blankEntry \<or> (\<exists>l \<in> set ls. joins l n d \<and> e = directEntry (weight l) d)"
    by blast
  then show "distance e \<le> INFINITY"
  proof
    assume "e = blankEntry"
    then show ?thesis by (simp add: blankEntry_def)
  next
    assume "\<exists>l \<in> set ls. joins l n d \<and> e = directEntry (weight l) d"
    then obtain l where "l \<in> set ls" "e = directEntry (weight l) d" by blast
    with assms(2) show ?thesis by (simp add: directEntry_def)
  qed
qed

lemma relaxation_preserves:
  assumes "relaxation c rs = Inr (p, rs')" and "K (newNodes rs)"
    and "\<And>n d ch ns ns' ch'. K ns \<Longrightarrow> relaxStep (links c) n d ch ns = Inr (ns', ch') \<Longrightarrow> K ns'"
  shows "K (newNodes rs')"
proof -
  have "K (newNodes ((publishNodes rs)\<lparr>hasChanges := True\<rparr>))" using assms(2) by simp
  from relaxLoop_preserves[where K = K, OF assms(1)[unfolded relaxation_def] this] assms(3)
  show ?thesis by blast
qed

lemma relaxation_synced:
  assumes "relaxation c rs = Inr (p, rs')" and "links (store rs) = links c"
  shows "synced (links c) rs'"
proof -
  have "synced (links c) ((publishNodes rs)\<lparr>hasChanges := True\<rparr>)"
    using assms(2) by (simp add: synced_def publishNodes_def)
  from synced_relaxLoop[OF assms(1)[unfolded relaxation_def] this] show ?thesis .
qed

lemma startEffect_parts:
  assumes "startEffect obs s = Inr s'" and "\<not> isSetup s" and "\<not> session.isProcessing s"
  shows "\<exists>rs1 p rs2. initLoop (links s) (links s) (beginRun obs s s) = Inr rs1 \<and>
           relaxation s rs1 = Inr (p, rs2) \<and> s' = finishRun rs2 \<and>
           nodes s' = newNodes rs2 \<and> links s' = links s"
proof -
  from assms obtain rs1 where i: "initLoop (links s) (links s) (beginRun obs s s) = Inr rs1"
    by (auto simp: startEffect_def updateRoutingTables_def split: sum.splits)
  with assms obtain p rs2 where r: "relaxation s rs1 = Inr (p, rs2)" "s' = finishRun rs2"
    by (auto simp: startEffect_def updateRoutingTables_def split: sum.splits)
  have "links (store rs1) = links s"
    by (rule initLoop_links[OF i]) (simp add: beginRun_def)
  from relaxation_synced[OF r(1) this] r(2)
  have "nodes s' = newNodes rs2" "links s' = links s"
    by (simp_all add: synced_def finishRun_def)
  with i r show ?thesis by blast
qed

text \<open>
  Claim C8. On a session built from a matrix of 2 to 8 nodes with positive weights the
  run ends with every pair of nodes that no walk joins at distance \<open>INFINITY\<close> and next
  hop \<open>-\<close>. A candidate through a neighbour whose distance reads as \<open>INFINITY\<close> leaves a
  best distance of at most \<open>INFINITY\<close>, its next hop and the change flag as they were,
  and a relaxation step on tables with no distance above \<open>INFINITY\<close> gives such tables.
  When no weight is above \<open>INFINITY\<close>, no distance is above \<open>INFINITY\<close> after the link
  loop nor at the end of the run.
\<close>

theorem sentinel_never_exceeded:
  assumes "squareMatrix N m" and "2 \<le> N" and "N \<le> 8" and "positiveWeights N m"
    and "handleSetupComplete N m s0 = Inr s" and "\<not> session.isProcessing s0"
  shows "\<exists>s'. startEffect [] s = Inr s' \<and>
           (\<forall>n \<in> set (nodeIds N). \<forall>d \<in> set (nodeIds N).
              n \<noteq> d \<and> (\<forall>p. \<not> walk (links s) n p d) \<longrightarrow>
              (\<exists>e. entryAt (nodes s') n d = Some e \<and> distance e = INFINITY \<and> nextHop e = ''-'')) \<and>
           (\<forall>l \<in> set (links s). \<forall>n d ns x h c.
              incident l n \<and> x \<le> INFINITY \<and> nd ns (other l n) d = INFINITY \<and>
              findNode (other l n) ns \<noteq> None \<longrightarrow>
              scanLinks n d ns [l] (x, h, c) = Inr (x, h, c)) \<and>
           (\<forall>ns n d c ns' c'.
              bounded ns \<and> relaxStep (links s) n d c ns = Inr (ns', c') \<longrightarrow> bounded ns') \<and>
           (sentinelWeights N m \<longrightarrow>
              bounded (nodes s') \<and>
              (\<exists>rs1. initLoop (links s) (links s) (beginRun [] s s) = Inr rs1 \<and>
                 bounded (newNodes rs1)))"
proof -
  note pw = assms(4)
  from handleSetupComplete_Inr[OF assms(5)] assms(6) obtain ls where
    ls: "newLinks N m = Inr ls" and s: "nodes s = newNodesOf N" "links s = ls" "\<not> isSetup s"
      "\<not> session.isProcessing s"
    by auto
  from setup_run[OF assms(1,3) pw assms(5,6)] obtain s' where
    r: "startEffect [] s = Inr s'" and ok: "tablesOk (nodeIds N) (links s) (nodes s')"
    and g: "goodLinks (nodeIds N) (links s)"
    and shape: "\<forall>a b e. entryAt (foldl (\<lambda>ns l. initLink l ns) (nodes s) (links s)) a b = Some e \<longrightarrow>
              e = blankEntry \<or> (\<exists>l \<in> set (links s). joins l a b \<and> e = directEntry (weight l) b)"
    by blast
  from startEffect_parts[OF r s(3,4)] obtain rs1 p rs2 where
    i: "initLoop (links s) (links s) (beginRun [] s s) = Inr rs1" and
    x: "relaxation s rs1 = Inr (p, rs2)" and n': "nodes s' = newNodes rs2"
    by blast
  have ends: "\<forall>l \<in> set (links s). lfrom l \<in> nid ` set (newNodes (beginRun [] s s)) \<and>
      lto l \<in> nid ` set (newNodes (beginRun [] s s))"
  proof
    fix l assume "l \<in> set (links s)"
    with g have "lfrom l \<in> set (nodeIds N)" "lto l \<in> set (nodeIds N)"
      by (simp_all add: goodLinks_def)
    moreover have "nid ` set (newNodesOf N) = set (nodeIds N)"
      using nid_newNodesOf[of N] by (metis nodeIds_def set_map)
    ultimately show "lfrom l \<in> nid ` set (newNodes (beginRun [] s s)) \<and>
      lto l \<in> nid ` set (newNodes (beginRun [] s s))"
      using s(1) by (simp add: beginRun_def)
  qed
  have "pending (beginRun [] s s) = []" by (simp add: beginRun_def)
  from initLoop_nopause[where cl = "links s", OF this ends] i
  have n1: "newNodes rs1 = foldl (\<lambda>ns l. initLink l ns) (nodes s) (links s)"
    by (simp add: beginRun_def)
  have bnd: "bounded (nodes s') \<and>
       (\<exists>rs1. initLoop (links s) (links s) (beginRun [] s s) = Inr rs1 \<and> bounded (newNodes rs1))"
    if sw: "sentinelWeights N m"
  proof -
    have wb: "\<forall>l \<in> set (links s). weight l \<le> INFINITY"
      using setup_weights_bounded[OF ls assms(1) sw] s by simp
    from bounded_shape[OF shape wb] n1 have b1: "bounded (newNodes rs1)" by simp
    have b: "bounded (nodes s')"
      unfolding n' using relaxation_preserves[where K = bounded, OF x b1] bounded_relaxStep by blast
    from b b1 i show ?thesis by blast
  qed
  from ok have cp: "complete (nodeIds N) (nodes s')" and so: "sound (links s) (nodes s')"
    by (simp_all add: tablesOk_def)
  have blank: "\<exists>e. entryAt (nodes s') n d = Some e \<and> distance e = INFINITY \<and> nextHop e = ''-''"
    if "n \<in> set (nodeIds N)" "d \<in> set (nodeIds N)" "n \<noteq> d" "\<forall>p. \<not> walk (links s) n p d" for n d
  proof -
    from cp that(1,2,3) obtain e where e: "entryAt (nodes s') n d = Some e"
      by (auto simp: complete_def)
    with so that(4) have "distance e = INFINITY \<and> nextHop e = ''-''"
      unfolding sound_def by blast
    with e show ?thesis by blast
  qed
  have skip: "scanLinks n d ns [l] (x, h, c) = Inr (x, h, c)"
    if "l \<in> set (links s)" "incident l n" "x \<le> INFINITY" "nd ns (other l n) d = INFINITY"
      "findNode (other l n) ns \<noteq> None" for l n d ns x h c
  proof -
    from g that(1) have "0 < weight l" by (simp add: goodLinks_def)
    from sentinel_candidate_skipped[OF this that(3,4)] that(5) show ?thesis by blast
  qed
  show ?thesis
  proof (intro exI[of _ s'] conjI ballI allI impI)
    show "startEffect [] s = Inr s'" by (rule r)
  next
    fix n d assume "n \<in> set (nodeIds N)" "d \<in> set (nodeIds N)"
      "n \<noteq> d \<and> (\<forall>p. \<not> walk (links s) n p d)"
    then show "\<exists>e. entryAt (nodes s') n d = Some e \<and> distance e = INFINITY \<and> nextHop e = ''-''"
      using blank by blast
  next
    fix l n d ns x h c
    assume "l \<in> set (links s)" "incident l n \<and> x \<le> INFINITY \<and> nd ns (other l n) d = INFINITY \<and>
              findNode (other l n) ns \<noteq> None"
    then show "scanLinks n d ns [l] (x, h, c) = Inr (x, h, c)" using skip by blast
  next
    fix ns n d c ns' c'
    assume "bounded ns \<and> relaxStep (links s) n d c ns = Inr (ns', c')"
    then show "bounded ns'" using bounded_relaxStep by blast
  next
    assume "sentinelWeights N m"
    then show "bounded (nodes s')" using bnd by blast
  next
    assume "sentinelWeights N m"
    then show "\<exists>rs1. initLoop (links s) (links s) (beginRun [] s s) = Inr rs1 \<and>
                 bounded (newNodes rs1)" using bnd by blast
  qed
qed

lemma pair_setup: "handleSetupComplete 3 pairMatrix initialSession = Inr pairStart"
  by code_simp

lemma pair_no_walk: "walk pairLinks a p ''C'' \<Longrightarrow> a = ''C''"
proof (induction p arbitrary: a)
  case Nil
  then show ?case by simp
next
  case (Cons l p)
  from Cons.prems have "walk pairLinks (other l a) p ''C''" by simp
  from Cons.IH[OF this] have "other l a = ''C''" .
  moreover from Cons.prems have "l = \<lparr>lfrom = ''A'', lto = ''B'', weight = 2\<rparr>"
    by (simp add: pairLinks_def)
  ultimately show ?case by (simp add: other_def split: if_splits)
qed

lemma pair_valid:
  "squareMatrix 3 pairMatrix" "positiveWeights 3 pairMatrix" "sentinelWeights 3 pairMatrix"
  by (simp_all add: squareMatrix_def positiveWeights_def sentinelWeights_def pairMatrix_def
      INFINITY_def less_Suc_eq numeral_3_eq_3)

text \<open>
  A session that satisfies the hypotheses of C8 and has a pair no walk joins: with the
  single link A-B, the entry of A for C ends at \<open>INFINITY\<close> with next hop \<open>-\<close>, and no
  distance is above \<open>INFINITY\<close>.
\<close>

theorem sentinel_never_exceeded_witness:
  "squareMatrix 3 pairMatrix \<and> positiveWeights 3 pairMatrix \<and> sentinelWeights 3 pairMatrix \<and>
   handleSetupComplete 3 pairMatrix initialSession = Inr pairStart \<and>
   (\<forall>p. \<not> walk pairLinks ''A'' p ''C'') \<and>
   (\<exists>s'. startEffect [] pairStart = Inr s' \<and> bounded (nodes s') \<and>
      (\<exists>e. entryAt (nodes s') ''A'' ''C'' = Some e \<and> distance e = INFINITY \<and> nextHop e = ''-''))"
proof -
  have np: "\<not> session.isProcessing initialSession" by (simp add: initialSession_def)
  have nw: "\<forall>p. \<not> walk pairLinks ''A'' p ''C''" using pair_no_walk by fastforce
  have ls: "links pairStart = pairLinks" by (simp add: pairStart_def)
  have ids: "''A'' \<in> set (nodeIds 3)" "''C'' \<in> set (nodeIds 3)" by code_simp+
  from sentinel_never_exceeded[OF pair_valid(1) _ _ pair_valid(2) pair_setup np]
  obtain s' where s': "startEffect [] pairStart = Inr s'"
    "\<forall>n \<in> set (nodeIds 3). \<forall>d \<in> set (nodeIds 3).
        n \<noteq> d \<and> (\<forall>p. \<not> walk (links pairStart) n p d) \<longrightarrow>
        (\<exists>e. entryAt (nodes s') n d = Some e \<and> distance e = INFINITY \<and> nextHop e = ''-'')"
    "sentinelWeights 3 pairMatrix \<longrightarrow> bounded (nodes s')"
    by auto
  from s'(2)[rule_format, OF ids] nw ls
  have "\<exists>e. entryAt (nodes s') ''A'' ''C'' = Some e \<and> distance e = INFINITY \<and> nextHop e = ''-''"
    by simp
  with s'(1,3) pair_valid pair_setup nw show ?thesis by blast
qed

lemma big_setup: "handleSetupComplete 3 bigMatrix initialSession = Inr bigStart"
  by code_simp

text \<open>
  Claim C8 as stated fails: with a link A-B of weight 2000000 the link loop stores a
  distance above \<open>INFINITY\<close>, and the candidate of A for B through C, the weight 1 plus
  the \<open>INFINITY\<close> of C for B, is below it and is stored. (B and C are joined by a walk:
  the part of the claim about pairs that no path joins is not concerned.)
\<close>

theorem sentinel_exceeded_counterexample:
  "squareMatrix 3 bigMatrix \<and> positiveWeights 3 bigMatrix \<and>
   handleSetupComplete 3 bigMatrix initialSession = Inr bigStart \<and>
   finalTables (startEffect [] bigStart) =
     Inr [(''A'', [(''B'', 1 + INFINITY, ''C''), (''C'', 1, ''C'')]),
          (''B'', [(''A'', 2000000, ''A''), (''C'', INFINITY, ''-'')]),
          (''C'', [(''A'', 1, ''A''), (''B'', INFINITY, ''-'')])] \<and>
   INFINITY < 2000000"
proof -
  have "squareMatrix 3 bigMatrix" "positiveWeights 3 bigMatrix"
    by (simp_all add: squareMatrix_def positiveWeights_def bigMatrix_def INFINITY_def
        less_Suc_eq numeral_3_eq_3)
  moreover have "finalTables (startEffect [] bigStart) =
     Inr [(''A'', [(''B'', 1 + INFINITY, ''C''), (''C'', 1, ''C'')]),
          (''B'', [(''A'', 2000000, ''A''), (''C'', INFINITY, ''-'')]),
          (''C'', [(''A'', 1, ''A''), (''B'', INFINITY, ''-'')])]"
    by code_simp
  moreover have "INFINITY < 2000000" by (simp add: INFINITY_def)
  ultimately show ?thesis using big_setup by blast
qed

section \<open>Relaxation never raises a distance\<close>

lemma tri_setup: "handleSetupComplete 3 triMatrix initialSession = Inr triStart"
  by code_simp

lemma tri_first_run: "map_sum id clearNew (startEffect [] triStart) = Inr triConverged"
  by code_simp

text \<open>
  Claim C10, for the relaxation phase: a relaxation step leaves every distance at or
  below what it was, and so does the whole loop of passes. The link loop is different:
  for a link whose ends are nodes it stores the link's weight, with the other end as next
  hop, in the entry of each end for the other, whatever they held, and leaves every
  other entry alone; a link loop that is never paused, over links that are no loops and
  join different pairs of nodes, does so for every link.
\<close>

theorem relaxation_never_raises:
  "(relaxStep ls n d c ns = Inr (ns', c') \<longrightarrow> lowers ns ns') \<and>
   (relaxLoop ls ids mp p rs = Inr (p', rs') \<longrightarrow> lowers (newNodes rs) (newNodes rs')) \<and>
   (lfrom l \<in> nid ` set ns \<and> lto l \<in> nid ` set ns \<longrightarrow>
      entryAt (initLink l ns) (lfrom l) (lto l) = Some (directEntry (weight l) (lto l)) \<and>
      entryAt (initLink l ns) (lto l) (lfrom l) = Some (directEntry (weight l) (lfrom l)) \<and>
      (\<forall>a b. \<not> joins l a b \<longrightarrow> entryAt (initLink l ns) a b = entryAt ns a b)) \<and>
   (pending rs0 = [] \<and> uniquePairs ks \<and>
    (\<forall>k \<in> set ks. lfrom k \<noteq> lto k \<and> lfrom k \<in> nid ` set (newNodes rs0) \<and>
       lto k \<in> nid ` set (newNodes rs0)) \<longrightarrow>
      (\<exists>rs1. initLoop cl ks rs0 = Inr rs1 \<and>
         (\<forall>k \<in> set ks.
            entryAt (newNodes rs1) (lfrom k) (lto k) = Some (directEntry (weight k) (lto k)) \<and>
            entryAt (newNodes rs1) (lto k) (lfrom k) = Some (directEntry (weight k) (lfrom k))) \<and>
         (\<forall>a b. (\<forall>k \<in> set ks. \<not> joins k a b) \<longrightarrow>
            entryAt (newNodes rs1) a b = entryAt (newNodes rs0) a b)))"
proof (intro conjI impI)
  assume "relaxStep ls n d c ns = Inr (ns', c')"
  then show "lowers ns ns'" by (rule relaxStep_lowers)
next
  assume r: "relaxLoop ls ids mp p rs = Inr (p', rs')"
  have "lowers (newNodes rs) (newNodes rs)" by (rule lowers_refl)
  show "lowers (newNodes rs) (newNodes rs')"
  proof (rule relaxLoop_preserves[where K = "lowers (newNodes rs)", OF r \<open>lowers (newNodes rs) (newNodes rs)\<close>])
    fix n d c ns ns' c'
    assume "lowers (newNodes rs) ns" "relaxStep ls n d c ns = Inr (ns', c')"
    then show "lowers (newNodes rs) ns'" by (rule lowers_trans[OF _ relaxStep_lowers])
  qed
next
  assume a: "lfrom l \<in> nid ` set ns \<and> lto l \<in> nid ` set ns"
  then have E: "entryAt (initLink l ns) a b =
           (if a = lto l \<and> b = lfrom l then Some (directEntry (weight l) (lfrom l))
            else if a = lfrom l \<and> b = lto l then Some (directEntry (weight l) (lto l))
            else entryAt ns a b)" for a b
    by (intro entryAt_initLink) simp_all
  show "entryAt (initLink l ns) (lfrom l) (lto l) = Some (directEntry (weight l) (lto l))"
  proof (cases "lto l = lfrom l")
    case True
    have "entryAt (initLink l ns) (lfrom l) (lfrom l) = Some (directEntry (weight l) (lfrom l))"
      by (subst E) (simp only: True simp_thms if_True)
    then show ?thesis by (simp only: True)
  next
    case False
    then have "\<not> (lfrom l = lto l \<and> lto l = lfrom l)" by simp
    then show ?thesis by (subst E) (simp only: if_False simp_thms if_True)
  qed
  show "entryAt (initLink l ns) (lto l) (lfrom l) = Some (directEntry (weight l) (lfrom l))"
    by (subst E) (simp only: simp_thms if_True)
  show "\<forall>a b. \<not> joins l a b \<longrightarrow> entryAt (initLink l ns) a b = entryAt ns a b"
  proof (intro allI impI)
    fix a b assume "\<not> joins l a b"
    then have "\<not> (a = lto l \<and> b = lfrom l)" "\<not> (a = lfrom l \<and> b = lto l)"
      by (auto simp: joins_def)
    then show "entryAt (initLink l ns) a b = entryAt ns a b"
      by (subst E) (simp only: if_False)
  qed
next
  assume a: "pending rs0 = [] \<and> uniquePairs ks \<and>
    (\<forall>k \<in> set ks. lfrom k \<noteq> lto k \<and> lfrom k \<in> nid ` set (newNodes rs0) \<and>
       lto k \<in> nid ` set (newNodes rs0))"
  then have ends: "\<forall>k \<in> set ks. lfrom k \<in> nid ` set (newNodes rs0) \<and> lto k \<in> nid ` set (newNodes rs0)"
    and nl: "\<forall>k \<in> set ks. lfrom k \<noteq> lto k" and u: "uniquePairs ks" and np: "pending rs0 = []"
    by blast+
  from initLoop_nopause[where cl = cl, OF np ends] obtain rs1 where
    i: "initLoop cl ks rs0 = Inr rs1"
    and n1: "newNodes rs1 = foldl (\<lambda>ns l. initLink l ns) (newNodes rs0) ks"
    by blast
  from entryAt_foldl_initLink[OF u ends nl] i show
    "\<exists>rs1. initLoop cl ks rs0 = Inr rs1 \<and>
         (\<forall>k \<in> set ks.
            entryAt (newNodes rs1) (lfrom k) (lto k) = Some (directEntry (weight k) (lto k)) \<and>
            entryAt (newNodes rs1) (lto k) (lfrom k) = Some (directEntry (weight k) (lfrom k))) \<and>
         (\<forall>a b. (\<forall>k \<in> set ks. \<not> joins k a b) \<longrightarrow>
            entryAt (newNodes rs1) a b = entryAt (newNodes rs0) a b)"
    unfolding n1[symmetric] by (intro exI[of _ rs1]) blast
qed

lemma tri_structure:
  "linksIn (nodeIds 3) triLinks" "hasEntries (nodeIds 3) triNodes"
  "''A'' \<in> set (nodeIds 3)" "''B'' \<in> set (nodeIds 3)"
  by code_simp+

lemma tri_links_ok:
  "uniquePairs triLinks"
  "\<forall>k \<in> set triLinks. lfrom k \<noteq> lto k \<and> lfrom k \<in> nid ` set triNodes \<and> lto k \<in> nid ` set triNodes"
  by code_simp+

text \<open>
  The parts of C10 on the tables of the triangle, where A reaches B at distance 2 through
  C: a step for A and B, the loop of passes, the two writes for the link A-B of weight
  10, and the link loop of a run on these tables.
\<close>

theorem relaxation_never_raises_witness:
  "(\<exists>ns' c'. relaxStep triLinks ''A'' ''B'' False triNodes = Inr (ns', c') \<and> lowers triNodes ns') \<and>
   (\<exists>p' rs'. relaxLoop triLinks (nodeIds 3) 2 1 (beginRun [] triConverged triConverged) =
        Inr (p', rs') \<and> lowers triNodes (newNodes rs')) \<and>
   entryAt (initLink \<lparr>lfrom = ''A'', lto = ''B'', weight = 10\<rparr> triNodes) ''A'' ''B'' =
     Some (directEntry 10 ''B'') \<and>
   entryAt (initLink \<lparr>lfrom = ''A'', lto = ''B'', weight = 10\<rparr> triNodes) ''B'' ''A'' =
     Some (directEntry 10 ''A'') \<and>
   (\<exists>rs1. initLoop triLinks triLinks (beginRun [] triConverged triConverged) = Inr rs1 \<and>
      entryAt (newNodes rs1) ''A'' ''B'' = Some (directEntry 10 ''B'') \<and>
      entryAt (newNodes rs1) ''B'' ''A'' = Some (directEntry 10 ''A''))"
proof (intro conjI)
  from hasEntries_relaxStep[OF tri_structure(1,2,3,4), of False] obtain ns' c' where
    r: "relaxStep triLinks ''A'' ''B'' False triNodes = Inr (ns', c')" by auto
  with relaxation_never_raises[where ls = triLinks and n = "''A''" and d = "''B''" and c = False
      and ns = triNodes and ns' = ns' and c' = c']
  show "\<exists>ns' c'. relaxStep triLinks ''A'' ''B'' False triNodes = Inr (ns', c') \<and> lowers triNodes ns'"
    by blast
next
  let ?rs = "beginRun [] triConverged triConverged"
  have n: "newNodes ?rs = triNodes" by (simp add: beginRun_def triConverged_def)
  have "PausedForever \<notin> set (pending ?rs)" by (simp add: beginRun_def)
  from relaxLoop_total[OF tri_structure(1) this, of 2 1] tri_structure(2) n obtain p' rs' where
    r: "relaxLoop triLinks (nodeIds 3) 2 1 ?rs = Inr (p', rs')" by auto
  with relaxation_never_raises[where ls = triLinks and ids = "nodeIds 3" and mp = 2 and p = 1
      and rs = ?rs and p' = p' and rs' = rs'] n
  show "\<exists>p' rs'. relaxLoop triLinks (nodeIds 3) 2 1 ?rs = Inr (p', rs') \<and>
          lowers triNodes (newNodes rs')"
    by auto
next
  let ?l = "\<lparr>lfrom = ''A'', lto = ''B'', weight = 10\<rparr>"
  have e: "lfrom ?l \<in> nid ` set triNodes \<and> lto ?l \<in> nid ` set triNodes"
    by (simp add: triNodes_def)
  note w = relaxation_never_raises[where l = ?l and ns = triNodes, THEN conjunct2, THEN conjunct2,
      THEN conjunct1, rule_format, OF e]
  from w show "entryAt (initLink ?l triNodes) ''A'' ''B'' = Some (directEntry 10 ''B'')" by simp
  from w show "entryAt (initLink ?l triNodes) ''B'' ''A'' = Some (directEntry 10 ''A'')" by simp
next
  let ?rs = "beginRun [] triConverged triConverged"
  have n: "newNodes ?rs = triNodes" by (simp add: beginRun_def triConverged_def)
  have h: "pending ?rs = [] \<and> uniquePairs triLinks \<and>
    (\<forall>k \<in> set triLinks. lfrom k \<noteq> lto k \<and> lfrom k \<in> nid ` set (newNodes ?rs) \<and>
       lto k \<in> nid ` set (newNodes ?rs))"
    unfolding n using tri_links_ok by (simp add: beginRun_def)
  from relaxation_never_raises[where rs0 = ?rs and ks = triLinks and cl = triLinks,
      THEN conjunct2, THEN conjunct2, THEN conjunct2, rule_format, OF h]
  obtain rs1 where i: "initLoop triLinks triLinks ?rs = Inr rs1" and
    e: "\<forall>k \<in> set triLinks.
            entryAt (newNodes rs1) (lfrom k) (lto k) = Some (directEntry (weight k) (lto k)) \<and>
            entryAt (newNodes rs1) (lto k) (lfrom k) = Some (directEntry (weight k) (lfrom k))"
    by blast
  have "\<lparr>lfrom = ''A'', lto = ''B'', weight = 10\<rparr> \<in> set triLinks" by (simp add: triLinks_def)
  from e[rule_format, OF this] i
  show "\<exists>rs1. initLoop triLinks triLinks ?rs = Inr rs1 \<and>
      entryAt (newNodes rs1) ''A'' ''B'' = Some (directEntry 10 ''B'') \<and>
      entryAt (newNodes rs1) ''B'' ''A'' = Some (directEntry 10 ''A'')"
    by (intro exI[of _ rs1]) simp
qed

text \<open>
  Claim C10 as stated fails: in the triangle, the first run ends with A to B at 2 via C;
  the link loop of the next run on these tables stores 10 for A to B again.
\<close>

theorem link_loop_raises_counterexample:
  "handleSetupComplete 3 triMatrix initialSession = Inr triStart \<and>
   map_sum id clearNew (startEffect [] triStart) = Inr triConverged \<and>
   tableOf (nodes triConverged) =
     [(''A'', [(''B'', 2, ''C''), (''C'', 1, ''C'')]),
      (''B'', [(''A'', 2, ''C''), (''C'', 1, ''C'')]),
      (''C'', [(''A'', 1, ''A''), (''B'', 1, ''B'')])] \<and>
   afterInit triConverged =
     Inr [(''A'', [(''B'', 10, ''B''), (''C'', 1, ''C'')]),
          (''B'', [(''A'', 10, ''A''), (''C'', 1, ''C'')]),
          (''C'', [(''A'', 1, ''A''), (''B'', 1, ''B'')])]"
proof -
  have "tableOf (nodes triConverged) =
     [(''A'', [(''B'', 2, ''C''), (''C'', 1, ''C'')]),
      (''B'', [(''A'', 2, ''C''), (''C'', 1, ''C'')]),
      (''C'', [(''A'', 1, ''A''), (''B'', 1, ''B'')])]"
    by code_simp
  moreover have "afterInit triConverged =
     Inr [(''A'', [(''B'', 10, ''B''), (''C'', 1, ''C'')]),
          (''B'', [(''A'', 10, ''A''), (''C'', 1, ''C'')]),
          (''C'', [(''A'', 1, ''A''), (''B'', 1, ''B'')])]"
    by code_simp
  ultimately show ?thesis using tri_setup tri_first_run by blast
qed

section \<open>Ties\<close>

lemma scanLinks_unchanged:
  assumes "scanLinks n d ns ls (m, h, c) = Inr (m', h', c')"
    and "\<forall>l \<in> set ls. incident l n \<longrightarrow> m \<le> cand ns l n d"
  shows "m' = m \<and> h' = h \<and> c' = c"
proof -
  from scanLinks_origin[OF assms(1)] show ?thesis
  proof
    assume "m' = m \<and> h' = h \<and> c' = c"
    then show ?thesis .
  next
    assume "m' < m \<and> c' \<and> (\<exists>l \<in> set ls. incident l n \<and> m' = cand ns l n d \<and> h' = other l n)"
    then obtain l where "m' < m" "l \<in> set ls" "incident l n" "m' = cand ns l n d" by blast
    with assms(2) have False by fastforce
    then show ?thesis ..
  qed
qed

lemma scanLinks_first:
  assumes "scanLinks n d ns ls (m, h, c) = Inr (m', h', c')"
    and "\<exists>l \<in> set ls. incident l n \<and> cand ns l n d < m"
  shows "\<exists>pre l post. ls = pre @ l # post \<and> incident l n \<and> cand ns l n d = m' \<and>
           other l n = h' \<and> c' \<and> m' < m \<and>
           (\<forall>k \<in> set pre. incident k n \<longrightarrow> m' < cand ns k n d) \<and>
           (\<forall>k \<in> set post. incident k n \<longrightarrow> m' \<le> cand ns k n d)"
  using assms
proof (induction ls arbitrary: m h c)
  case Nil
  then show ?case by simp
next
  case (Cons k ls)
  show ?case
  proof (cases "incident k n \<and> cand ns k n d < m")
    case True
    with Cons.prems(1) have
      r: "scanLinks n d ns ls (cand ns k n d, other k n, True) = Inr (m', h', c')"
      by (simp add: scanLinks_step split: if_splits)
    show ?thesis
    proof (cases "\<exists>l \<in> set ls. incident l n \<and> cand ns l n d < cand ns k n d")
      case better: True
      from Cons.IH[OF r better] obtain pre l post where
        d: "ls = pre @ l # post" "incident l n" "cand ns l n d = m'" "other l n = h'" "c'"
          "m' < cand ns k n d"
          "\<forall>x \<in> set pre. incident x n \<longrightarrow> m' < cand ns x n d"
          "\<forall>x \<in> set post. incident x n \<longrightarrow> m' \<le> cand ns x n d"
        by blast
      have "k # ls = (k # pre) @ l # post" using d(1) by simp
      moreover have "\<forall>x \<in> set (k # pre). incident x n \<longrightarrow> m' < cand ns x n d"
        using d(6,7) by simp
      moreover have "m' < m" using d(6) True by simp
      ultimately show ?thesis using d(2,3,4,5,8) by blast
    next
      case False
      then have "\<forall>l \<in> set ls. incident l n \<longrightarrow> cand ns k n d \<le> cand ns l n d" by fastforce
      from scanLinks_unchanged[OF r this] have e: "m' = cand ns k n d" "h' = other k n" "c'"
        by simp_all
      have "k # ls = [] @ k # ls" by simp
      moreover have "\<forall>x \<in> set ls. incident x n \<longrightarrow> m' \<le> cand ns x n d"
        using False e(1) by fastforce
      ultimately show ?thesis using True e by (intro exI[of _ "[]"] exI[of _ k] exI[of _ ls]) simp
    qed
  next
    case False
    with Cons.prems(1) have r: "scanLinks n d ns ls (m, h, c) = Inr (m', h', c')"
      by (auto simp: scanLinks_step split: if_splits)
    from Cons.prems(2) False have "\<exists>l \<in> set ls. incident l n \<and> cand ns l n d < m" by auto
    from Cons.IH[OF r this] obtain pre l post where
      d: "ls = pre @ l # post" "incident l n" "cand ns l n d = m'" "other l n = h'" "c'"
        "m' < m"
        "\<forall>x \<in> set pre. incident x n \<longrightarrow> m' < cand ns x n d"
        "\<forall>x \<in> set post. incident x n \<longrightarrow> m' \<le> cand ns x n d"
      by blast
    have "k # ls = (k # pre) @ l # post" using d(1) by simp
    moreover have "\<forall>x \<in> set (k # pre). incident x n \<longrightarrow> m' < cand ns x n d"
      using d(6,7) False by fastforce
    ultimately show ?thesis using d(2,3,4,5,6,8) by blast
  qed
qed

text \<open>
  Claim C9. The links are scanned in list order (\<open>scanLinks\<close> recurses on the list). When
  no link at the node offers a candidate strictly below the best distance so far, the
  distance, the next hop and the change flag stay as they were. Otherwise the result is
  the least candidate, and the next hop is the other end of the first link in list
  order that offers it: every link before it offers strictly more, and a link after it
  that offers as much does not replace it.
\<close>

theorem first_strict_improvement_wins:
  assumes "scanLinks n d ns ls (m, h, c) = Inr (m', h', c')"
  shows "((\<forall>l \<in> set ls. incident l n \<longrightarrow> m \<le> cand ns l n d) \<longrightarrow> m' = m \<and> h' = h \<and> c' = c) \<and>
         ((\<exists>l \<in> set ls. incident l n \<and> cand ns l n d < m) \<longrightarrow>
            (\<exists>pre l post. ls = pre @ l # post \<and> incident l n \<and> cand ns l n d = m' \<and>
               other l n = h' \<and> c' \<and> m' < m \<and>
               (\<forall>k \<in> set pre. incident k n \<longrightarrow> m' < cand ns k n d) \<and>
               (\<forall>k \<in> set post. incident k n \<longrightarrow> m' \<le> cand ns k n d)))"
  using scanLinks_unchanged[OF assms] scanLinks_first[OF assms] by blast

text \<open>
  The tie of C9 in the square: from A to D the links A-B and A-C both offer 2; the scan
  ends with 2 via B, the first of them.
\<close>

theorem first_strict_improvement_wins_witness:
  "scanLinks ''A'' ''D'' tieNodes tieLinks (INFINITY, ''-'', False) = Inr (2, ''B'', True) \<and>
   cand tieNodes \<lparr>lfrom = ''A'', lto = ''B'', weight = 1\<rparr> ''A'' ''D'' = 2 \<and>
   cand tieNodes \<lparr>lfrom = ''A'', lto = ''C'', weight = 1\<rparr> ''A'' ''D'' = 2 \<and>
   (\<exists>pre l post. tieLinks = pre @ l # post \<and> incident l ''A'' \<and> other l ''A'' = ''B'' \<and>
      cand tieNodes l ''A'' ''D'' = 2 \<and>
      (\<forall>k \<in> set pre. incident k ''A'' \<longrightarrow> 2 < cand tieNodes k ''A'' ''D'') \<and>
      (\<forall>k \<in> set post. incident k ''A'' \<longrightarrow> 2 \<le> cand tieNodes k ''A'' ''D''))"
proof -
  have s: "scanLinks ''A'' ''D'' tieNodes tieLinks (INFINITY, ''-'', False) = Inr (2, ''B'', True)"
    by code_simp
  have c1: "cand tieNodes \<lparr>lfrom = ''A'', lto = ''B'', weight = 1\<rparr> ''A'' ''D'' = 2"
    by code_simp
  have c2: "cand tieNodes \<lparr>lfrom = ''A'', lto = ''C'', weight = 1\<rparr> ''A'' ''D'' = 2"
    by code_simp
  have "\<lparr>lfrom = ''A'', lto = ''B'', weight = 1\<rparr> \<in> set tieLinks"
    "incident \<lparr>lfrom = ''A'', lto = ''B'', weight = 1\<rparr> ''A''"
    by (simp_all add: tieLinks_def incident_def)
  with c1 have "\<exists>l \<in> set tieLinks. incident l ''A'' \<and> cand tieNodes l ''A'' ''D'' < INFINITY"
    by (intro bexI[of _ "\<lparr>lfrom = ''A'', lto = ''B'', weight = 1\<rparr>"]) (simp_all add: INFINITY_def)
  with first_strict_improvement_wins[OF s] have
    "\<exists>pre l post. tieLinks = pre @ l # post \<and> incident l ''A'' \<and> cand tieNodes l ''A'' ''D'' = 2 \<and>
       other l ''A'' = ''B'' \<and> True \<and> 2 < INFINITY \<and>
       (\<forall>k \<in> set pre. incident k ''A'' \<longrightarrow> 2 < cand tieNodes k ''A'' ''D'') \<and>
       (\<forall>k \<in> set post. incident k ''A'' \<longrightarrow> 2 \<le> cand tieNodes k ''A'' ''D'')"
    by blast
  with s c1 c2 show ?thesis by blast
qed

section \<open>Passes\<close>

lemma relaxLoop_stops:
  assumes "hasChanges rs" and "p \<le> mp"
    and "relaxPairs ls (List.product ids ids) (startPass p mp rs) = Inr rs'"
    and "\<not> hasChanges rs'"
  shows "relaxLoop ls ids mp p rs = Inr (p + 1, rs')"
proof -
  have "relaxLoop ls ids mp (p + 1) rs' = Inr (p + 1, rs')"
    using assms(4) by (subst relaxLoop.simps) simp
  with assms(1,2,3) show ?thesis by (subst relaxLoop.simps) simp
qed

lemma length_newNodesOf: "length (newNodesOf N) = N"
  by (simp add: newNodesOf_def)

lemma sameRoutes_refl: "sameRoutes ns ns"
  by (simp add: sameRoutes_def)

lemma sameRoutes_trans: "sameRoutes a b \<Longrightarrow> sameRoutes b c \<Longrightarrow> sameRoutes a c"
  by (simp add: sameRoutes_def)

lemma lowered_not_same: "lowered ns ns' \<Longrightarrow> \<not> sameRoutes ns ns'"
proof
  assume l: "lowered ns ns'" and s: "sameRoutes ns ns'"
  from l obtain n d and e e' :: entry where
    e: "entryAt ns n d = Some e" "entryAt ns' n d = Some e'" "distance e' < distance e"
    unfolding lowered_def by blast
  from s have "map_option (\<lambda>e. (distance e, nextHop e)) (entryAt ns' n d) =
            map_option (\<lambda>e. (distance e, nextHop e)) (entryAt ns n d)"
    by (simp add: sameRoutes_def)
  with e show False by simp
qed

lemma lowered_lowers: "lowered a b \<Longrightarrow> lowers b c \<Longrightarrow> lowered a c"
proof -
  assume l: "lowered a b" and m: "lowers b c"
  from l obtain n d and e e' :: entry where
    e: "entryAt a n d = Some e" "entryAt b n d = Some e'" "distance e' < distance e"
    unfolding lowered_def by blast
  from m e(2) obtain e'' where "entryAt c n d = Some e''" "distance e'' \<le> distance e'"
    unfolding lowers_def by blast
  with e(1,3) show ?thesis unfolding lowered_def by (intro exI[of _ n] exI[of _ d] exI[of _ e] exI[of _ e'']) simp
qed

text \<open>One step: the flag is raised exactly when the step lowers the distance of its entry.\<close>

lemma relaxStep_flag:
  assumes "relaxStep ls n d c ns = Inr (ns', c')"
  shows "(c' \<and> (c \<or> lowered ns ns')) \<or> (\<not> c' \<and> \<not> c \<and> sameRoutes ns ns')"
proof -
  from relaxStep_char[OF assms] obtain e m' h' where
    e: "entryAt ns n d = Some e" and
    sc: "scanLinks n d ns ls (distance e, nextHop e, c) = Inr (m', h', c')" and
    E': "\<And>a b. entryAt ns' a b =
              (if a = n \<and> b = d
               then Some \<lparr>distance = m', nextHop = h', isNew = (m' \<noteq> distance e),
                          entry.isProcessing = False, calculated = True\<rparr>
               else entryAt ns a b)"
    by auto
  from scanLinks_origin[OF sc] scanLinks_bounds[OF sc]
  consider (same) "m' = distance e" "h' = nextHop e" "c' = c" | (low) "m' < distance e" "c'"
    by blast
  then show ?thesis
  proof cases
    case same
    have "sameRoutes ns ns'" unfolding sameRoutes_def
    proof (intro allI)
      fix a b
      show "map_option (\<lambda>e. (distance e, nextHop e)) (entryAt ns' a b) =
            map_option (\<lambda>e. (distance e, nextHop e)) (entryAt ns a b)"
        using e same by (simp add: E')
    qed
    with same show ?thesis by blast
  next
    case low
    define e' where "e' = \<lparr>distance = m', nextHop = h', isNew = (m' \<noteq> distance e),
                          entry.isProcessing = False, calculated = True\<rparr>"
    have "entryAt ns' n d = Some e'" "distance e' = m'"
      by (simp_all add: E' e'_def)
    with e low(1) have "lowered ns ns'" unfolding lowered_def
      by (intro exI[of _ n] exI[of _ d] exI[of _ e] exI[of _ e']) simp
    with low show ?thesis by blast
  qed
qed

lemma passFlag_unit:
  assumes "passFlag ns0 rs" "relaxUnit ls n d rs = Inr rs'"
  shows "passFlag ns0 rs'"
proof -
  from relaxUnit_char[OF assms(2)]
  have st: "relaxStep ls n d (hasChanges rs) (newNodes rs) = Inr (newNodes rs', hasChanges rs')"
    by simp
  from relaxStep_lowers[OF st] have lo: "lowers (newNodes rs) (newNodes rs')" .
  from assms(1) have l0: "lowers ns0 (newNodes rs)" by (simp add: passFlag_def)
  from lowers_trans[OF l0 lo] have l1: "lowers ns0 (newNodes rs')" .
  from relaxStep_flag[OF st] show ?thesis
  proof
    assume a: "hasChanges rs' \<and> (hasChanges rs \<or> lowered (newNodes rs) (newNodes rs'))"
    have "lowered ns0 (newNodes rs')"
    proof (cases "hasChanges rs")
      case True
      with assms(1) have "lowered ns0 (newNodes rs)" by (simp add: passFlag_def)
      from lowered_lowers[OF this lo] show ?thesis .
    next
      case False
      with assms(1) have s: "sameRoutes ns0 (newNodes rs)" by (simp add: passFlag_def)
      from a False obtain x y and e e' :: entry where
        e: "entryAt (newNodes rs) x y = Some e" "entryAt (newNodes rs') x y = Some e'"
          "distance e' < distance e"
        unfolding lowered_def by blast
      from s have "map_option (\<lambda>e. (distance e, nextHop e)) (entryAt (newNodes rs) x y) =
            map_option (\<lambda>e. (distance e, nextHop e)) (entryAt ns0 x y)"
        by (simp add: sameRoutes_def)
      with e(1) obtain e0 where "entryAt ns0 x y = Some e0" "distance e0 = distance e"
        by (cases "entryAt ns0 x y") auto
      with e(2,3) show ?thesis unfolding lowered_def
        by (intro exI[of _ x] exI[of _ y] exI[of _ e0] exI[of _ e']) simp
    qed
    with a l1 show ?thesis by (simp add: passFlag_def)
  next
    assume a: "\<not> hasChanges rs' \<and> \<not> hasChanges rs \<and> sameRoutes (newNodes rs) (newNodes rs')"
    with assms(1) have "sameRoutes ns0 (newNodes rs)" by (simp add: passFlag_def)
    with a have "sameRoutes ns0 (newNodes rs')" using sameRoutes_trans by blast
    with a l1 show ?thesis by (simp add: passFlag_def)
  qed
qed

text \<open>A whole pass, paused or not: \<open>hasChanges\<close> at its end says whether it moved a route.\<close>

lemma pass_flag:
  assumes "relaxPairs ls ps (startPass p mp ra) = Inr rb"
  shows "hasChanges rb = (\<not> sameRoutes (newNodes ra) (newNodes rb)) \<and>
         hasChanges rb = lowered (newNodes ra) (newNodes rb)"
proof -
  have s: "passFlag (newNodes ra) (startPass p mp ra)"
    by (simp add: passFlag_def lowers_refl sameRoutes_refl)
  have "passFlag (newNodes ra) rb"
  proof (rule relaxPairs_run_rule[where Q = "passFlag (newNodes ra)", OF assms s])
    fix rs p rs1 assume "passFlag (newNodes ra) rs" "observe rs = (p, rs1)"
    then show "passFlag (newNodes ra) rs1" using observe_cases[of rs p rs1]
      by (simp add: passFlag_def)
  next
    fix rs assume "passFlag (newNodes ra) rs"
    then show "passFlag (newNodes ra) (setStatus SimulationPaused rs)" by (simp add: passFlag_def)
  next
    fix rs n d rs' assume "passFlag (newNodes ra) rs" "relaxUnit ls n d rs = Inr rs'"
    then show "passFlag (newNodes ra) rs'" by (rule passFlag_unit)
  qed
  then show ?thesis using lowered_not_same[of "newNodes ra" "newNodes rb"]
    by (auto simp: passFlag_def split: if_splits)
qed

lemma passesFrom_Suc:
  "passesFrom ls ids mp p (Suc k) rs =
     (case passesFrom ls ids mp p k rs of
        Inl e \<Rightarrow> Inl e
      | Inr ra \<Rightarrow> relaxPairs ls (List.product ids ids) (startPass (p + int k) mp ra))"
proof (induction k arbitrary: p rs)
  case 0
  show ?case by (simp split: sum.splits)
next
  case (Suc k)
  show ?case
  proof (cases "relaxPairs ls (List.product ids ids) (startPass p mp rs)")
    case (Inl e)
    then show ?thesis by simp
  next
    case (Inr r1)
    have a: "passesFrom ls ids mp p (Suc (Suc k)) rs = passesFrom ls ids mp (p + 1) (Suc k) r1"
      using Inr by simp
    have b: "passesFrom ls ids mp p (Suc k) rs = passesFrom ls ids mp (p + 1) k r1"
      using Inr by simp
    have c: "p + 1 + int k = p + int (Suc k)" by simp
    show ?thesis unfolding a b using Suc.IH[of "p + 1" r1] unfolding c .
  qed
qed

lemma passesFrom_prefix:
  "passesFrom ls ids mp p k rs = Inr rs' \<Longrightarrow> j \<le> k \<Longrightarrow> \<exists>ra. passesFrom ls ids mp p j rs = Inr ra"
proof (induction k arbitrary: rs')
  case 0
  then show ?case by simp
next
  case (Suc k)
  show ?case
  proof (cases "j = Suc k")
    case True
    with Suc.prems show ?thesis by blast
  next
    case False
    with Suc.prems have j: "j \<le> k" by simp
    from Suc.prems(1) obtain ra where "passesFrom ls ids mp p k rs = Inr ra"
      by (subst (asm) passesFrom_Suc) (auto split: sum.splits)
    from Suc.IH[OF this j] show ?thesis .
  qed
qed

lemma relaxLoop_trace:
  assumes "relaxLoop ls ids mp p rs = Inr (p', rs')"
  shows "\<exists>k. p' = p + int k \<and> passesFrom ls ids mp p k rs = Inr rs' \<and>
           (0 < k \<longrightarrow> hasChanges rs \<and> p' \<le> mp + 1) \<and>
           (k = 0 \<longrightarrow> \<not> (hasChanges rs \<and> p \<le> mp)) \<and>
           (\<forall>j. Suc j < k \<longrightarrow> (\<exists>rb. passesFrom ls ids mp p (Suc j) rs = Inr rb \<and> hasChanges rb)) \<and>
           (\<not> hasChanges rs' \<or> mp < p')"
  using assms
proof (induction ls ids mp p rs rule: relaxLoop.induct)
  case (1 ls ids mp p rs)
  show ?case
  proof (cases "hasChanges rs \<and> p \<le> mp")
    case False
    with "1.prems" have "p' = p" "rs' = rs" by (simp_all add: relaxLoop.simps)
    with False show ?thesis by (intro exI[of _ 0]) auto
  next
    case True
    with "1.prems"(1) obtain r1 where
      a: "relaxPairs ls (List.product ids ids) (startPass p mp rs) = Inr r1" and
      b: "relaxLoop ls ids mp (p + 1) r1 = Inr (p', rs')"
      by (subst (asm) relaxLoop.simps) (auto split: sum.splits)
    from "1.IH"[OF True a b] obtain k where
      k: "p' = p + 1 + int k" "passesFrom ls ids mp (p + 1) k r1 = Inr rs'"
        "0 < k \<longrightarrow> hasChanges r1 \<and> p' \<le> mp + 1"
        "k = 0 \<longrightarrow> \<not> (hasChanges r1 \<and> p + 1 \<le> mp)"
        "\<forall>j. Suc j < k \<longrightarrow> (\<exists>rb. passesFrom ls ids mp (p + 1) (Suc j) r1 = Inr rb \<and> hasChanges rb)"
        "\<not> hasChanges rs' \<or> mp < p'"
      by blast
    have step: "passesFrom ls ids mp p (Suc j) rs = passesFrom ls ids mp (p + 1) j r1" for j
      using a by simp
    have mid: "\<exists>rb. passesFrom ls ids mp p (Suc j) rs = Inr rb \<and> hasChanges rb"
      if "Suc j < Suc k" for j
    proof (cases j)
      case 0
      from that 0 k(3) have "hasChanges r1" by simp
      moreover have "passesFrom ls ids mp p (Suc 0) rs = Inr r1" unfolding step by simp
      ultimately show ?thesis using 0 by blast
    next
      case (Suc j')
      with that have "Suc j' < k" by simp
      with k(5) obtain rb where "passesFrom ls ids mp (p + 1) (Suc j') r1 = Inr rb" "hasChanges rb"
        by blast
      then show ?thesis unfolding Suc step[of "Suc j'"] by blast
    qed
    have le: "p' \<le> mp + 1"
    proof (cases k)
      case 0
      with k(1) True show ?thesis by simp
    next
      case (Suc k')
      with k(3) show ?thesis by simp
    qed
    have p: "p' = p + int (Suc k)" using k(1) by simp
    have r: "passesFrom ls ids mp p (Suc k) rs = Inr rs'" unfolding step by (rule k(2))
    from p r le True mid k(6) show ?thesis
      by (intro exI[of _ "Suc k"]) blast
  qed
qed

lemma relaxLoop_continues:
  assumes "hasChanges rs" and "p \<le> mp"
    and "relaxPairs ls (List.product ids ids) (startPass p mp rs) = Inr rs'"
  shows "relaxLoop ls ids mp p rs = relaxLoop ls ids mp (p + 1) rs'"
  using assms by (subst relaxLoop.simps) simp

text \<open>
  Claim C4. For a session built by \<open>handleSetupComplete\<close> from an \<open>N\<close> by \<open>N\<close> matrix
  and a pause flag that is cleared whenever it is set, the link loop and the loop of
  passes return. The loop runs \<open>k\<close> passes and leaves \<open>pass\<close> at \<open>k + 1\<close>: \<open>k\<close> is at
  most \<open>N - 1\<close> (and at least 1 when there are two nodes or more); a pass that leaves the
  distance and next hop of every entry as they were is the last one; and when fewer than
  \<open>N - 1\<close> passes were run, the last one left every distance and next hop as it was. The
  run ends with \<open>isProcessing\<close> false, pass 0 and the status "Simulation complete".
  The last part is one turn of the loop, from any state: after a pass within the budget
  that changed no distance and no next hop the loop returns at once, with \<open>pass\<close> one
  more than at the start of the pass; after a pass that changed one, \<open>hasChanges\<close> is
  set and the loop goes on with the next pass number.
\<close>

theorem relaxation_pass_budget:
  assumes "squareMatrix N m" and "handleSetupComplete N m s0 = Inr s"
    and "\<not> session.isProcessing s0" and "PausedForever \<notin> set obs"
  shows "(\<exists>rs1 k rs2.
            initLoop (links s) (links s) (beginRun obs s s) = Inr rs1 \<and>
            relaxation s rs1 = Inr (1 + int k, rs2) \<and> passesOf s rs1 k = Inr rs2 \<and>
            int k \<le> max 0 (int N - 1) \<and> (2 \<le> N \<longrightarrow> 0 < k) \<and>
            (\<forall>j < k. \<exists>ra rb.
               passesOf s rs1 j = Inr ra \<and> passesOf s rs1 (Suc j) = Inr rb \<and>
               (sameRoutes (newNodes ra) (newNodes rb) \<longrightarrow> Suc j = k) \<and>
               (Suc j = k \<and> int k < int N - 1 \<longrightarrow> sameRoutes (newNodes ra) (newNodes rb))) \<and>
            startEffect obs s = Inr (finishRun rs2) \<and>
            \<not> session.isProcessing (finishRun rs2) \<and> currentPass (finishRun rs2) = 0 \<and>
            currentNodeStatus (finishRun rs2) = SimulationComplete) \<and>
         (\<forall>ls ids mp p rs rs'.
            hasChanges rs \<and> p \<le> mp \<and>
            relaxPairs ls (List.product ids ids) (startPass p mp rs) = Inr rs' \<longrightarrow>
            (sameRoutes (newNodes rs) (newNodes rs') \<longrightarrow>
               relaxLoop ls ids mp p rs = Inr (p + 1, rs')) \<and>
            (\<not> sameRoutes (newNodes rs) (newNodes rs') \<longrightarrow>
               relaxLoop ls ids mp p rs = relaxLoop ls ids mp (p + 1) rs' \<and> hasChanges rs'))"
proof (intro conjI allI impI)
  from handleSetupComplete_Inr[OF assms(2)] assms(3) obtain ls where
    ls: "newLinks N m = Inr ls" and s: "nodes s = newNodesOf N" "links s = ls" "\<not> isSetup s"
      "\<not> session.isProcessing s"
    by auto
  have li: "linksIn (nodeIds N) (links s)" using setup_linksIn[OF ls assms(1)] s by simp
  have he: "hasEntries (nodeIds N) (nodes s)" using setup_hasEntries[of N] s by simp
  have ids: "map nid (nodes s) = nodeIds N" using he by (simp add: hasEntries_def)
  have len: "int (length (nodes s)) = int N" using s(1) by (simp add: length_newNodesOf)
  have "PausedForever \<notin> set (pending (beginRun obs s s))"
    "hasEntries (nodeIds N) (newNodes (beginRun obs s s))"
    using assms(4) he by (simp_all add: beginRun_def)
  from initLoop_total[OF this, of "links s" "links s"] obtain rs1 where
    i: "initLoop (links s) (links s) (beginRun obs s s) = Inr rs1"
    and i1: "PausedForever \<notin> set (pending rs1)" "hasEntries (nodeIds N) (newNodes rs1)"
    by blast
  define rs0 where "rs0 = (publishNodes rs1)\<lparr>hasChanges := True\<rparr>"
  have po: "passesOf s rs1 j = passesFrom (links s) (nodeIds N) (int N - 1) 1 j rs0" for j
    by (simp add: passesOf_def ids len rs0_def)
  have "PausedForever \<notin> set (pending rs0)" "hasEntries (nodeIds N) (newNodes rs0)"
    using i1 by (simp_all add: rs0_def)
  from relaxLoop_total[OF li this, of "int N - 1" 1] obtain p rs2 where
    r: "relaxLoop (links s) (nodeIds N) (int N - 1) 1 rs0 = Inr (p, rs2)" by blast
  then have x: "relaxation s rs1 = Inr (p, rs2)" by (simp add: relaxation_def ids len rs0_def)
  from relaxLoop_trace[OF r] obtain k where
    k: "p = 1 + int k" "passesFrom (links s) (nodeIds N) (int N - 1) 1 k rs0 = Inr rs2"
      "0 < k \<longrightarrow> hasChanges rs0 \<and> p \<le> int N - 1 + 1"
      "k = 0 \<longrightarrow> \<not> (hasChanges rs0 \<and> 1 \<le> int N - 1)"
      "\<forall>j. Suc j < k \<longrightarrow>
         (\<exists>rb. passesFrom (links s) (nodeIds N) (int N - 1) 1 (Suc j) rs0 = Inr rb \<and> hasChanges rb)"
      "\<not> hasChanges rs2 \<or> int N - 1 < p"
    by blast
  have bound: "int k \<le> max 0 (int N - 1)" using k(1,3) by (cases k) auto
  have some: "2 \<le> N \<longrightarrow> 0 < k" using k(4) by (auto simp: rs0_def)
  have each: "\<exists>ra rb.
               passesOf s rs1 j = Inr ra \<and> passesOf s rs1 (Suc j) = Inr rb \<and>
               (sameRoutes (newNodes ra) (newNodes rb) \<longrightarrow> Suc j = k) \<and>
               (Suc j = k \<and> int k < int N - 1 \<longrightarrow> sameRoutes (newNodes ra) (newNodes rb))"
    if j: "j < k" for j
  proof -
    from passesFrom_prefix[OF k(2), of "Suc j"] j obtain rb where
      rb: "passesFrom (links s) (nodeIds N) (int N - 1) 1 (Suc j) rs0 = Inr rb" by auto
    from passesFrom_prefix[OF k(2), of j] j obtain ra where
      ra: "passesFrom (links s) (nodeIds N) (int N - 1) 1 j rs0 = Inr ra" by auto
    from rb ra have
      "relaxPairs (links s) (List.product (nodeIds N) (nodeIds N))
         (startPass (1 + int j) (int N - 1) ra) = Inr rb"
      by (subst (asm) passesFrom_Suc) simp
    from pass_flag[OF this] have f: "hasChanges rb = (\<not> sameRoutes (newNodes ra) (newNodes rb))"
      by simp
    have a: "Suc j = k" if "sameRoutes (newNodes ra) (newNodes rb)"
    proof (rule ccontr)
      assume "Suc j \<noteq> k"
      with j have "Suc j < k" by simp
      with k(5) rb have "hasChanges rb" by auto
      with f that show False by simp
    qed
    have b: "sameRoutes (newNodes ra) (newNodes rb)" if "Suc j = k" "int k < int N - 1"
    proof -
      from that(1) rb k(2) have "rb = rs2" by simp
      moreover from that(2) k(1,6) have "\<not> hasChanges rs2" by simp
      ultimately show ?thesis using f by simp
    qed
    from ra rb a b show ?thesis unfolding po by blast
  qed
  have "startEffect obs s = Inr (finishRun rs2)"
    using s(3,4) i x by (simp add: startEffect_def updateRoutingTables_def)
  moreover have "\<not> session.isProcessing (finishRun rs2)" "currentPass (finishRun rs2) = 0"
    "currentNodeStatus (finishRun rs2) = SimulationComplete"
    by (simp_all add: finishRun_def)
  moreover have "passesOf s rs1 k = Inr rs2" unfolding po by (rule k(2))
  moreover have "relaxation s rs1 = Inr (1 + int k, rs2)" using x k(1) by simp
  ultimately show "\<exists>rs1 k rs2.
            initLoop (links s) (links s) (beginRun obs s s) = Inr rs1 \<and>
            relaxation s rs1 = Inr (1 + int k, rs2) \<and> passesOf s rs1 k = Inr rs2 \<and>
            int k \<le> max 0 (int N - 1) \<and> (2 \<le> N \<longrightarrow> 0 < k) \<and>
            (\<forall>j < k. \<exists>ra rb.
               passesOf s rs1 j = Inr ra \<and> passesOf s rs1 (Suc j) = Inr rb \<and>
               (sameRoutes (newNodes ra) (newNodes rb) \<longrightarrow> Suc j = k) \<and>
               (Suc j = k \<and> int k < int N - 1 \<longrightarrow> sameRoutes (newNodes ra) (newNodes rb))) \<and>
            startEffect obs s = Inr (finishRun rs2) \<and>
            \<not> session.isProcessing (finishRun rs2) \<and> currentPass (finishRun rs2) = 0 \<and>
            currentNodeStatus (finishRun rs2) = SimulationComplete"
    using i bound some each
    by (intro exI[of _ rs1] exI[of _ k] exI[of _ rs2]) blast
next
  fix ls ids mp p rs rs'
  assume a: "hasChanges rs \<and> p \<le> mp \<and>
            relaxPairs ls (List.product ids ids) (startPass p mp rs) = Inr rs'"
    and b: "sameRoutes (newNodes rs) (newNodes rs')"
  from a pass_flag[of ls "List.product ids ids" p mp rs rs'] b have "\<not> hasChanges rs'" by simp
  with a show "relaxLoop ls ids mp p rs = Inr (p + 1, rs')" using relaxLoop_stops by blast
next
  fix ls ids mp p rs rs'
  assume a: "hasChanges rs \<and> p \<le> mp \<and>
            relaxPairs ls (List.product ids ids) (startPass p mp rs) = Inr rs'"
    and b: "\<not> sameRoutes (newNodes rs) (newNodes rs')"
  from a show "relaxLoop ls ids mp p rs = relaxLoop ls ids mp (p + 1) rs'"
    using relaxLoop_continues by blast
next
  fix ls ids mp p rs rs'
  assume a: "hasChanges rs \<and> p \<le> mp \<and>
            relaxPairs ls (List.product ids ids) (startPass p mp rs) = Inr rs'"
    and b: "\<not> sameRoutes (newNodes rs) (newNodes rs')"
  from a pass_flag[of ls "List.product ids ids" p mp rs rs'] b show "hasChanges rs'" by simp
qed

lemma pair_passes:
  "(case initLoop (links pairStart) (links pairStart) (beginRun [] pairStart pairStart) of
      Inl e \<Rightarrow> Inl e
    | Inr rs1 \<Rightarrow> map_sum id fst (relaxation pairStart rs1)) = Inr 2"
  by code_simp

text \<open>
  The session with the single link A-B under C4: the budget is 2 passes, the first pass
  changes no distance and no next hop, and the loop returns after it with \<open>pass\<close> at 2.
\<close>

theorem relaxation_pass_budget_witness:
  "squareMatrix 3 pairMatrix \<and>
   handleSetupComplete 3 pairMatrix initialSession = Inr pairStart \<and>
   PausedForever \<notin> set ([] :: pause list) \<and>
   (\<exists>rs1 rs2.
      initLoop pairLinks pairLinks (beginRun [] pairStart pairStart) = Inr rs1 \<and>
      relaxation pairStart rs1 = Inr (2, rs2) \<and> passesOf pairStart rs1 1 = Inr rs2 \<and>
      sameRoutes (newNodes rs1) (newNodes rs2) \<and>
      startEffect [] pairStart = Inr (finishRun rs2) \<and>
      \<not> session.isProcessing (finishRun rs2))"
proof -
  have sq: "squareMatrix 3 pairMatrix"
    by (simp add: squareMatrix_def pairMatrix_def)
  have np: "\<not> session.isProcessing initialSession" by (simp add: initialSession_def)
  have nf: "PausedForever \<notin> set ([] :: pause list)" by simp
  have ls: "links pairStart = pairLinks" by (simp add: pairStart_def)
  from relaxation_pass_budget[OF sq pair_setup np nf, THEN conjunct1]
  obtain rs1 where "\<exists>k rs2.
     initLoop (links pairStart) (links pairStart) (beginRun [] pairStart pairStart) = Inr rs1 \<and>
     relaxation pairStart rs1 = Inr (1 + int k, rs2) \<and> passesOf pairStart rs1 k = Inr rs2 \<and>
     int k \<le> max 0 (int 3 - 1) \<and> (2 \<le> (3::nat) \<longrightarrow> 0 < k) \<and>
     (\<forall>j < k. \<exists>ra rb.
         passesOf pairStart rs1 j = Inr ra \<and> passesOf pairStart rs1 (Suc j) = Inr rb \<and>
         (sameRoutes (newNodes ra) (newNodes rb) \<longrightarrow> Suc j = k) \<and>
         (Suc j = k \<and> int k < int 3 - 1 \<longrightarrow> sameRoutes (newNodes ra) (newNodes rb))) \<and>
     startEffect [] pairStart = Inr (finishRun rs2) \<and>
     \<not> session.isProcessing (finishRun rs2) \<and> currentPass (finishRun rs2) = 0 \<and>
     currentNodeStatus (finishRun rs2) = SimulationComplete" ..
  then obtain k where "\<exists>rs2.
     initLoop (links pairStart) (links pairStart) (beginRun [] pairStart pairStart) = Inr rs1 \<and>
     relaxation pairStart rs1 = Inr (1 + int k, rs2) \<and> passesOf pairStart rs1 k = Inr rs2 \<and>
     int k \<le> max 0 (int 3 - 1) \<and> (2 \<le> (3::nat) \<longrightarrow> 0 < k) \<and>
     (\<forall>j < k. \<exists>ra rb.
         passesOf pairStart rs1 j = Inr ra \<and> passesOf pairStart rs1 (Suc j) = Inr rb \<and>
         (sameRoutes (newNodes ra) (newNodes rb) \<longrightarrow> Suc j = k) \<and>
         (Suc j = k \<and> int k < int 3 - 1 \<longrightarrow> sameRoutes (newNodes ra) (newNodes rb))) \<and>
     startEffect [] pairStart = Inr (finishRun rs2) \<and>
     \<not> session.isProcessing (finishRun rs2) \<and> currentPass (finishRun rs2) = 0 \<and>
     currentNodeStatus (finishRun rs2) = SimulationComplete" ..
  then obtain rs2 where all:
    "initLoop (links pairStart) (links pairStart) (beginRun [] pairStart pairStart) = Inr rs1 \<and>
     relaxation pairStart rs1 = Inr (1 + int k, rs2) \<and> passesOf pairStart rs1 k = Inr rs2 \<and>
     int k \<le> max 0 (int 3 - 1) \<and> (2 \<le> (3::nat) \<longrightarrow> 0 < k) \<and>
     (\<forall>j < k. \<exists>ra rb.
         passesOf pairStart rs1 j = Inr ra \<and> passesOf pairStart rs1 (Suc j) = Inr rb \<and>
         (sameRoutes (newNodes ra) (newNodes rb) \<longrightarrow> Suc j = k) \<and>
         (Suc j = k \<and> int k < int 3 - 1 \<longrightarrow> sameRoutes (newNodes ra) (newNodes rb))) \<and>
     startEffect [] pairStart = Inr (finishRun rs2) \<and>
     \<not> session.isProcessing (finishRun rs2) \<and> currentPass (finishRun rs2) = 0 \<and>
     currentNodeStatus (finishRun rs2) = SimulationComplete" ..
  note i = all[THEN conjunct1]
  note x = all[THEN conjunct2, THEN conjunct1]
  note pk = all[THEN conjunct2, THEN conjunct2, THEN conjunct1]
  note each = all[THEN conjunct2, THEN conjunct2, THEN conjunct2, THEN conjunct2, THEN conjunct2,
      THEN conjunct1]
  note f1 = all[THEN conjunct2, THEN conjunct2, THEN conjunct2, THEN conjunct2, THEN conjunct2,
      THEN conjunct2, THEN conjunct1]
  note f2 = all[THEN conjunct2, THEN conjunct2, THEN conjunct2, THEN conjunct2, THEN conjunct2,
      THEN conjunct2, THEN conjunct2, THEN conjunct1]
  from pair_passes have "map_sum id fst (relaxation pairStart rs1) = Inr 2"
    unfolding i by simp
  then have k: "k = 1" unfolding x by simp
  have "\<exists>ra rb.
         passesOf pairStart rs1 0 = Inr ra \<and> passesOf pairStart rs1 (Suc 0) = Inr rb \<and>
         (sameRoutes (newNodes ra) (newNodes rb) \<longrightarrow> Suc 0 = k) \<and>
         (Suc 0 = k \<and> int k < int 3 - 1 \<longrightarrow> sameRoutes (newNodes ra) (newNodes rb))"
    using each[rule_format, of 0] k by simp
  then obtain ra rb where
    ab: "passesOf pairStart rs1 0 = Inr ra" "passesOf pairStart rs1 (Suc 0) = Inr rb"
      "Suc 0 = k \<and> int k < int 3 - 1 \<longrightarrow> sameRoutes (newNodes ra) (newNodes rb)"
    by blast
  from ab(3) k have same: "sameRoutes (newNodes ra) (newNodes rb)" by simp
  from ab(1) have "newNodes ra = newNodes rs1" by (auto simp: passesOf_def)
  moreover from ab(2) pk have "rb = rs2" unfolding k by simp
  ultimately have sr: "sameRoutes (newNodes rs1) (newNodes rs2)" using same by simp
  have x2: "relaxation pairStart rs1 = Inr (2, rs2)" using x unfolding k by simp
  have p1: "passesOf pairStart rs1 1 = Inr rs2" using pk unfolding k .
  have i2: "initLoop pairLinks pairLinks (beginRun [] pairStart pairStart) = Inr rs1"
    using i unfolding ls .
  from i2 x2 p1 sr f1 f2 have
    "\<exists>rs1 rs2.
      initLoop pairLinks pairLinks (beginRun [] pairStart pairStart) = Inr rs1 \<and>
      relaxation pairStart rs1 = Inr (2, rs2) \<and> passesOf pairStart rs1 1 = Inr rs2 \<and>
      sameRoutes (newNodes rs1) (newNodes rs2) \<and>
      startEffect [] pairStart = Inr (finishRun rs2) \<and>
      \<not> session.isProcessing (finishRun rs2)"
    by (intro exI[of _ rs1] exI[of _ rs2] conjI)
  with sq pair_setup nf show ?thesis by (intro conjI)
qed

section \<open>Setup\<close>

lemma nodeIds_distinct: "N \<le> 191 \<Longrightarrow> distinct (nodeIds N)"
  unfolding nodeIds_def
  by (rule iffD2[OF distinct_map]) (auto simp: inj_on_def nodeId_eq_iff)

lemma clampNodeCount_range: "2 \<le> clampNodeCount v \<and> clampNodeCount v \<le> 8"
  by (simp add: clampNodeCount_def)

text \<open>
  Claim C7, as the code has it: \<open>handleSetupComplete\<close> validates nothing and, on an
  \<open>N\<close> by \<open>N\<close> matrix, fails for no node count and no weight. It makes the nodes
  \<open>A\<close>, \<open>B\<close>, ... with a blank entry for every other node, and one link for every cell
  below the diagonal that is not \<open>INFINITY\<close>, with that cell as weight, between nodes
  of the session. Up to 8 nodes the ids are distinct, no link occurs twice and no two
  links join the same pair. The only bound on the node count is the clamp of the form,
  which keeps a numeric input in 2..8; the form turns a weight that is 0 or no number
  into \<open>INFINITY\<close> (no link) and passes every other weight on, negative ones too.
\<close>

theorem handleSetupComplete_never_fails:
  assumes "squareMatrix N m"
  shows "\<exists>ls. handleSetupComplete N m s =
                Inr (s\<lparr>nodes := newNodesOf N, links := ls, isSetup := False\<rparr>) \<and>
           map nid (newNodesOf N) = nodeIds N \<and>
           complete (nodeIds N) (newNodesOf N) \<and> fresh (newNodesOf N) \<and>
           (\<forall>l. l \<in> set ls \<longleftrightarrow>
              (\<exists>i j. j < i \<and> i < N \<and> m ! i ! j \<noteq> INFINITY \<and> l = mkLink m i j)) \<and>
           linksIn (nodeIds N) ls \<and>
           (N \<le> 8 \<longrightarrow> distinct (nodeIds N) \<and> distinct ls \<and> uniquePairs ls) \<and>
           2 \<le> clampNodeCount v \<and> clampNodeCount v \<le> 8 \<and>
           weightInput None = INFINITY \<and> weightInput (Some 0) = INFINITY \<and>
           (k \<noteq> 0 \<longrightarrow> weightInput (Some k) = k)"
proof -
  let ?ls = "concat (map (\<lambda>i. map (mkLink m i) (filter (\<lambda>j. m ! i ! j \<noteq> INFINITY) [0..<i])) [0..<N])"
  have nl: "newLinks N m = Inr ?ls" by (rule newLinks_eq[OF assms])
  then have h: "handleSetupComplete N m s =
                Inr (s\<lparr>nodes := newNodesOf N, links := ?ls, isSetup := False\<rparr>)"
    by (simp add: handleSetupComplete_def)
  have mem: "\<forall>l. l \<in> set ?ls \<longleftrightarrow>
              (\<exists>i j. j < i \<and> i < N \<and> m ! i ! j \<noteq> INFINITY \<and> l = mkLink m i j)"
    using newLinks_mem[OF nl assms] by blast
  have small: "distinct (nodeIds N) \<and> distinct ?ls \<and> uniquePairs ?ls" if "N \<le> 8"
  proof -
    from that have n: "N \<le> 191" by simp
    from nodeIds_distinct[OF n] newLinks_distinct[OF n, of m] newLinks_uniquePairs[OF nl assms n]
    show ?thesis by blast
  qed
  have ids: "map nid (newNodesOf N) = nodeIds N" by (simp add: nid_newNodesOf nodeIds_def)
  have wi: "weightInput None = INFINITY \<and> weightInput (Some 0) = INFINITY \<and>
           (k \<noteq> 0 \<longrightarrow> weightInput (Some k) = k)"
    by (simp add: weightInput_def)
  from h ids setup_complete[of N] setup_fresh[of N] mem setup_linksIn[OF nl assms] small
    clampNodeCount_range[of v] wi
  show ?thesis by (intro exI[of _ ?ls]) blast
qed

text \<open>
  The scenario under C7, the clamp at 1 and at 100, and the weight -5 as entered.
\<close>

theorem handleSetupComplete_never_fails_witness:
  "squareMatrix 3 (scenarioMatrix 2) \<and>
   handleSetupComplete 3 (scenarioMatrix 2) initialSession = Inr (scenarioStart 2) \<and>
   (\<exists>ls. handleSetupComplete 3 (scenarioMatrix 2) initialSession =
            Inr (initialSession\<lparr>nodes := newNodesOf 3, links := ls, isSetup := False\<rparr>) \<and>
          linksIn (nodeIds 3) ls \<and> distinct ls \<and> uniquePairs ls) \<and>
   clampNodeCount 1 = 2 \<and> clampNodeCount 100 = 8 \<and> weightInput (Some (- 5)) = - 5"
proof -
  from handleSetupComplete_never_fails[OF scenario_valid(1), of initialSession _ "- 5"]
  obtain ls where
    "handleSetupComplete 3 (scenarioMatrix 2) initialSession =
            Inr (initialSession\<lparr>nodes := newNodesOf 3, links := ls, isSetup := False\<rparr>)"
    "linksIn (nodeIds 3) ls" "3 \<le> (8::nat) \<longrightarrow> distinct (nodeIds 3) \<and> distinct ls \<and> uniquePairs ls"
    "(- 5::int) \<noteq> 0 \<longrightarrow> weightInput (Some (- 5)) = - 5"
    by blast
  moreover have "clampNodeCount 1 = 2" "clampNodeCount 100 = 8"
    by (simp_all add: clampNodeCount_def)
  ultimately show ?thesis using scenario_valid(1) scenario_setup by auto
qed

text \<open>
  Claim C7 as stated fails: a session of one node is built, and so is one whose link has
  weight -5; neither call fails.
\<close>

theorem setup_accepts_invalid_counterexample:
  "handleSetupComplete 1 [[INFINITY]] initialSession =
     Inr (initialSession\<lparr>nodes := [\<lparr>nid = ''A'', routingTable = []\<rparr>], links := [],
                         isSetup := False\<rparr>) \<and>
   handleSetupComplete 2 [[INFINITY, - 5], [- 5, INFINITY]] initialSession =
     Inr (initialSession
          \<lparr>nodes := [\<lparr>nid = ''A'', routingTable = [(''B'', blankEntry)]\<rparr>,
                     \<lparr>nid = ''B'', routingTable = [(''A'', blankEntry)]\<rparr>],
           links := [\<lparr>lfrom = ''A'', lto = ''B'', weight = - 5\<rparr>], isSetup := False\<rparr>)"
  by code_simp

section \<open>Editing a weight\<close>

lemma tableOf_clearFlags: "tableOf (clearFlags ns) = tableOf ns"
  by (simp add: tableOf_def clearFlags_def o_def split_def)

lemma tableOf_resetTables:
  "tableOf (resetTables ns) =
     map (\<lambda>n. (nid n, map (\<lambda>(k, e). (k, INFINITY, ''-'')) (routingTable n))) ns"
  by (simp add: tableOf_def resetTables_def blankEntry_def o_def split_def)

text \<open>
  Claim C3. The claim: an accepted weight change sets the link's weight and resets every
  routing entry to distance \<open>INFINITY\<close> and next hop \<open>-\<close> before the run is restarted.
  The code: on the converged scenario with A-B selected, the setters of
  \<open>handleWeightChange\<close> store weight 10 for A-B and clear the three flags of every entry,
  but every entry keeps its distance and its next hop (\<open>tableOf_clearFlags\<close>), where the
  reset of \<open>restartSimulation\<close> writes \<open>INFINITY\<close> and \<open>-\<close> (\<open>tableOf_resetTables\<close>).
\<close>

theorem handleWeightChange_keeps_distances:
  "links (applyEdit linkAB 10 scenarioSelected) = scenarioLinks 10 \<and>
   tableOf (nodes (applyEdit linkAB 10 scenarioSelected)) =
     [(''A'', [(''B'', 2, ''B''), (''C'', 5, ''B'')]),
      (''B'', [(''A'', 2, ''A''), (''C'', 3, ''C'')]),
      (''C'', [(''A'', 5, ''B''), (''B'', 3, ''B'')])]"
  by code_simp

text \<open>
  Claim C2. The claim: after a weight change and the run that follows, the tables are
  those of a fresh session with the edited weight; raising A-B from 2 to 10 makes A to C
  13 via B. The code: \<open>handleWeightChange\<close> with change 8 on the converged scenario ends
  with A to C still at 5 via B, the tables it started from. A run on the state its
  setters stored (weight 10, distances kept) ends with A to C at 5 as well, and B to A
  at 8 via C. The fresh session with weight 10 ends with A to C at 13.
\<close>

theorem handleWeightChange_stale_tables:
  "finalTables (handleWeightChange [] 8 scenarioSelected) =
     Inr [(''A'', [(''B'', 2, ''B''), (''C'', 5, ''B'')]),
          (''B'', [(''A'', 2, ''A''), (''C'', 3, ''C'')]),
          (''C'', [(''A'', 5, ''B''), (''B'', 3, ''B'')])] \<and>
   finalTables (startEffect [] (applyEdit linkAB 10 scenarioSelected)) =
     Inr [(''A'', [(''B'', 10, ''B''), (''C'', 5, ''B'')]),
          (''B'', [(''A'', 8, ''C''), (''C'', 3, ''C'')]),
          (''C'', [(''A'', 5, ''B''), (''B'', 3, ''B'')])] \<and>
   finalTables (startEffect [] (scenarioStart 10)) =
     Inr [(''A'', [(''B'', 10, ''B''), (''C'', 13, ''B'')]),
          (''B'', [(''A'', 10, ''A''), (''C'', 3, ''C'')]),
          (''C'', [(''A'', 13, ''B''), (''B'', 3, ''B'')])]"
  by code_simp

lemma sameEdit_observe: "sameEdit st rs \<Longrightarrow> observe rs = (p, rs1) \<Longrightarrow> sameEdit st rs1"
  using observe_cases[of rs p rs1] by (simp add: sameEdit_def)

lemma sameEdit_setStatus: "sameEdit st rs \<Longrightarrow> sameEdit st (setStatus m rs)"
  by (simp add: sameEdit_def setStatus_def)

lemma sameEdit_relaxUnit: "sameEdit st rs \<Longrightarrow> relaxUnit ls n d rs = Inr rs' \<Longrightarrow> sameEdit st rs'"
  by (auto simp: relaxUnit_def sameEdit_def publish_def setStatus_def split: sum.splits)

lemma sameEdit_relaxPairs:
  assumes "relaxPairs ls ps rs = Inr rs'" "sameEdit st rs"
  shows "sameEdit st rs'"
  by (rule relaxPairs_run_rule[where Q = "sameEdit st", OF assms])
    (auto intro: sameEdit_observe sameEdit_setStatus sameEdit_relaxUnit)

lemma sameEdit_relaxLoop:
  assumes "relaxLoop ls ids mp p rs = Inr (p', rs')" "sameEdit st rs"
  shows "sameEdit st rs'"
  using assms
proof (induction ls ids mp p rs rule: relaxLoop.induct)
  case (1 ls ids mp p rs)
  show ?case
  proof (cases "hasChanges rs \<and> p \<le> mp")
    case False
    with "1.prems" show ?thesis by (simp add: relaxLoop.simps)
  next
    case True
    with "1.prems"(1) obtain rs1 where
      a: "relaxPairs ls (List.product ids ids) (startPass p mp rs) = Inr rs1" and
      b: "relaxLoop ls ids mp (p + 1) rs1 = Inr (p', rs')"
      by (subst (asm) relaxLoop.simps) (auto split: sum.splits)
    have "sameEdit st (startPass p mp rs)" using "1.prems"(2) by (simp add: sameEdit_def startPass_def)
    from sameEdit_relaxPairs[OF a this] have "sameEdit st rs1" .
    from "1.IH"[OF True a b this] show ?thesis .
  qed
qed

lemma sameEdit_initLoop:
  "initLoop cl ls rs = Inr rs' \<Longrightarrow> sameEdit st rs \<Longrightarrow> sameEdit st rs'"
proof (induction ls arbitrary: rs)
  case Nil
  then show ?case by simp
next
  case (Cons l ls)
  obtain p rs1 where o: "observe rs = (p, rs1)" by (cases "observe rs")
  from sameEdit_observe[OF Cons.prems(2) o] have 1: "sameEdit st rs1" .
  show ?case
  proof (cases p)
    case NotPaused
    show ?thesis
    proof (cases "findNode (lfrom l) (newNodes rs1) \<noteq> None \<and> findNode (lto l) (newNodes rs1) \<noteq> None")
      case True
      let ?rs2 = "publish cl (setStatus (SettingUp (lfrom l) (lto l))
                     (rs1\<lparr>newNodes := initLink l (newNodes rs1)\<rparr>))"
      from Cons.prems(1) o NotPaused True have "initLoop cl ls ?rs2 = Inr rs'" by simp
      moreover have "sameEdit st ?rs2" using 1 by (simp add: sameEdit_def publish_def setStatus_def)
      ultimately show ?thesis by (rule Cons.IH)
    next
      case False
      with Cons.prems(1) o NotPaused have "initLoop cl ls rs1 = Inr rs'" by auto
      then show ?thesis using 1 by (rule Cons.IH)
    qed
  next
    case PausedThenResumed
    with Cons.prems(1) o have "initLoop cl ls (setStatus SimulationPaused rs1) = Inr rs'" by simp
    moreover have "sameEdit st (setStatus SimulationPaused rs1)"
      using 1 by (rule sameEdit_setStatus)
    ultimately show ?thesis by (rule Cons.IH)
  next
    case PausedForever
    with Cons.prems(1) o show ?thesis by simp
  qed
qed

text \<open>A run leaves the selection and the edit weight alone, and ends in the complete state.\<close>

lemma run_keeps_edit:
  assumes "updateRoutingTables obs c st = Inr s'" and "\<not> session.isProcessing c"
  shows "editWeight s' = editWeight st \<and> selectedLink s' = selectedLink st \<and>
         \<not> session.isProcessing s' \<and> currentPass s' = 0 \<and>
         currentNodeStatus s' = SimulationComplete"
proof -
  from assms obtain rs1 where i: "initLoop (links c) (links c) (beginRun obs c st) = Inr rs1"
    by (auto simp: updateRoutingTables_def split: sum.splits)
  with assms obtain p rs2 where r: "relaxation c rs1 = Inr (p, rs2)" "s' = finishRun rs2"
    by (auto simp: updateRoutingTables_def split: sum.splits)
  have "sameEdit st (beginRun obs c st)" by (simp add: sameEdit_def beginRun_def)
  from sameEdit_initLoop[OF i this] have "sameEdit st ((publishNodes rs1)\<lparr>hasChanges := True\<rparr>)"
    by (simp add: sameEdit_def publishNodes_def)
  from sameEdit_relaxLoop[OF r(1)[unfolded relaxation_def] this] have "sameEdit st rs2" .
  then show ?thesis unfolding r(2) by (simp add: sameEdit_def finishRun_def)
qed

lemma run_total:
  assumes "hasEntries ids (nodes c)" and "linksIn ids (links c)" and "PausedForever \<notin> set obs"
  shows "\<exists>s'. updateRoutingTables obs c st = Inr s'"
proof (cases "session.isProcessing c")
  case True
  then show ?thesis by (simp add: updateRoutingTables_def)
next
  case False
  from assms(1) have ids: "map nid (nodes c) = ids" by (simp add: hasEntries_def)
  have "PausedForever \<notin> set (pending (beginRun obs c st))"
    "hasEntries ids (newNodes (beginRun obs c st))"
    using assms(1,3) by (simp_all add: beginRun_def)
  from initLoop_total[OF this, of "links c" "links c"] obtain rs1 where
    i: "initLoop (links c) (links c) (beginRun obs c st) = Inr rs1"
    and i1: "PausedForever \<notin> set (pending rs1)" "hasEntries ids (newNodes rs1)"
    by blast
  let ?rs = "(publishNodes rs1)\<lparr>hasChanges := True\<rparr>"
  have "PausedForever \<notin> set (pending ?rs)" "hasEntries ids (newNodes ?rs)"
    using i1 by simp_all
  from relaxLoop_total[OF assms(2) this, of "int (length (nodes c)) - 1" 1] obtain p rs2 where
    "relaxLoop (links c) ids (int (length (nodes c)) - 1) 1 ?rs = Inr (p, rs2)" by blast
  then have "relaxation c rs1 = Inr (p, rs2)" by (simp add: relaxation_def ids)
  with False i show ?thesis by (simp add: updateRoutingTables_def)
qed

text \<open>
  Claim C5, for the guard as the code has it: \<open>handleWeightChange\<close> changes nothing
  whenever \<open>isProcessing\<close> is set, paused or not, and whenever no link or no edit weight
  is selected. With \<open>isProcessing\<close> clear and a link selected it is accepted: it starts
  a run, and when the run returns the edit weight is \<open>max 1 (editWeight + change)\<close>, the
  link is still selected and the state is the complete one. The run returns when every
  node has an entry for every other node, the links join nodes and the pause flag is
  cleared whenever it is set.
\<close>

theorem handleWeightChange_guard:
  "(session.isProcessing s \<longrightarrow> handleWeightChange obs change s = Inr s) \<and>
   (selectedLink s = None \<or> editWeight s = None \<longrightarrow> handleWeightChange obs change s = Inr s) \<and>
   (\<not> session.isProcessing s \<and> selectedLink s = Some sel \<and> editWeight s = Some w \<longrightarrow>
      handleWeightChange obs change s =
        updateRoutingTables obs s (applyEdit sel (max 1 (w + change)) s) \<and>
      (\<forall>s'. handleWeightChange obs change s = Inr s' \<longrightarrow>
         editWeight s' = Some (max 1 (w + change)) \<and> selectedLink s' = Some sel \<and>
         \<not> session.isProcessing s' \<and> currentPass s' = 0 \<and>
         currentNodeStatus s' = SimulationComplete) \<and>
      (hasEntries (map nid (nodes s)) (nodes s) \<and> linksIn (map nid (nodes s)) (links s) \<and>
       PausedForever \<notin> set obs \<longrightarrow>
         (\<exists>s'. handleWeightChange obs change s = Inr s')))"
proof (intro conjI impI allI)
  assume "session.isProcessing s"
  then show "handleWeightChange obs change s = Inr s"
    by (simp add: handleWeightChange_def split: option.splits)
next
  assume "selectedLink s = None \<or> editWeight s = None"
  then show "handleWeightChange obs change s = Inr s"
    by (auto simp: handleWeightChange_def split: option.splits)
next
  assume a: "\<not> session.isProcessing s \<and> selectedLink s = Some sel \<and> editWeight s = Some w"
  then show e: "handleWeightChange obs change s =
        updateRoutingTables obs s (applyEdit sel (max 1 (w + change)) s)"
    by (simp add: handleWeightChange_def)
  {
    fix s' assume "handleWeightChange obs change s = Inr s'"
    with e have "updateRoutingTables obs s (applyEdit sel (max 1 (w + change)) s) = Inr s'" by simp
    from run_keeps_edit[OF this] a
    have k: "editWeight s' = Some (max 1 (w + change)) \<and> selectedLink s' = Some sel \<and>
         \<not> session.isProcessing s' \<and> currentPass s' = 0 \<and>
         currentNodeStatus s' = SimulationComplete"
      by (simp add: applyEdit_def)
    from k show "editWeight s' = Some (max 1 (w + change))" by simp
    from k show "selectedLink s' = Some sel" by simp
    from k show "\<not> session.isProcessing s'" by simp
    from k show "currentPass s' = 0" by simp
    from k show "currentNodeStatus s' = SimulationComplete" by simp
  }
  assume "hasEntries (map nid (nodes s)) (nodes s) \<and> linksIn (map nid (nodes s)) (links s) \<and>
       PausedForever \<notin> set obs"
  then show "\<exists>s'. handleWeightChange obs change s = Inr s'"
    unfolding e using run_total by blast
qed

lemma scenario_entries:
  "hasEntries (map nid (nodes scenarioSelected)) (nodes scenarioSelected)"
  "linksIn (map nid (nodes scenarioSelected)) (links scenarioSelected)"
  by code_simp+

text \<open>
  The cases of C5 on the scenario: refused while a run is under way and paused, accepted
  when converged, with the edit weight 10 at the end.
\<close>

theorem handleWeightChange_guard_witness:
  "session.isProcessing scenarioPaused \<and>
   handleWeightChange [] 8 scenarioPaused = Inr scenarioPaused \<and>
   (\<exists>s'. handleWeightChange [] 8 scenarioSelected = Inr s' \<and> editWeight s' = Some 10 \<and>
      selectedLink s' = Some linkAB \<and> \<not> session.isProcessing s' \<and>
      currentNodeStatus s' = SimulationComplete)"
proof -
  have p: "session.isProcessing scenarioPaused" by (simp add: scenarioPaused_def)
  have a: "\<not> session.isProcessing scenarioSelected \<and> selectedLink scenarioSelected = Some linkAB \<and>
      editWeight scenarioSelected = Some 2"
    by (simp add: scenarioSelected_def scenarioConverged_def scenarioStart_def initialSession_def)
  have h: "hasEntries (map nid (nodes scenarioSelected)) (nodes scenarioSelected) \<and>
      linksIn (map nid (nodes scenarioSelected)) (links scenarioSelected) \<and>
      PausedForever \<notin> set ([] :: pause list)"
    using scenario_entries by simp
  note g = handleWeightChange_guard[where s = scenarioSelected and obs = "[]" and change = 8
      and sel = linkAB and w = 2, THEN conjunct2, THEN conjunct2, rule_format, OF a]
  from g[THEN conjunct2, THEN conjunct2, rule_format, OF h] obtain s' where
    s': "handleWeightChange [] 8 scenarioSelected = Inr s'" ..
  from g[THEN conjunct2, THEN conjunct1, rule_format, OF s']
  have "editWeight s' = Some 10 \<and> selectedLink s' = Some linkAB \<and> \<not> session.isProcessing s' \<and>
      currentNodeStatus s' = SimulationComplete"
    by simp
  with s' have "\<exists>s'. handleWeightChange [] 8 scenarioSelected = Inr s' \<and> editWeight s' = Some 10 \<and>
      selectedLink s' = Some linkAB \<and> \<not> session.isProcessing s' \<and>
      currentNodeStatus s' = SimulationComplete"
    by (intro exI[of _ s']) simp
  moreover from handleWeightChange_guard[where s = scenarioPaused and obs = "[]" and change = 8,
      THEN conjunct1] p
  have "handleWeightChange [] 8 scenarioPaused = Inr scenarioPaused" by simp
  ultimately show ?thesis using p by (intro conjI)
qed

text \<open>
  Claim C5 as stated fails: with a run under way and paused, and the link A-B selected,
  the change is refused and nothing is stored.
\<close>

theorem handleWeightChange_paused_counterexample:
  "session.isProcessing scenarioPaused \<and> isPaused scenarioPaused \<and>
   selectedLink scenarioPaused = Some linkAB \<and>
   handleWeightChange [] 8 scenarioPaused = Inr scenarioPaused \<and>
   links scenarioPaused = scenarioLinks 2"
  by code_simp

section \<open>Pausing\<close>

text \<open>
  Claim C6. The claim: a paused run resumes where it stopped and skips no unit of work.
  The code: when the pause flag is found set at the second link (B-C) and is cleared
  later, the \<open>continue\<close> of line 277 leaves that link without its two entries, and no
  later pass recovers them: the run ends with B to C and C to B unreachable, where the
  run that is never paused ends with distance 3.
\<close>

theorem pause_skips_link:
  "finalTables (startEffect [NotPaused, PausedThenResumed] (scenarioStart 2)) =
     Inr [(''A'', [(''B'', 2, ''B''), (''C'', 999999, ''-'')]),
          (''B'', [(''A'', 2, ''A''), (''C'', 999999, ''-'')]),
          (''C'', [(''A'', 5, ''B''), (''B'', 999999, ''-'')])] \<and>
   finalTables (startEffect [] (scenarioStart 2)) =
     Inr [(''A'', [(''B'', 2, ''B''), (''C'', 5, ''B'')]),
          (''B'', [(''A'', 2, ''A''), (''C'', 3, ''C'')]),
          (''C'', [(''A'', 5, ''B''), (''B'', 3, ''B'')])]"
  by code_simp

end
